theory Spec2Isabelle
  imports Main "HOL-Library.AList"
begin

section \<open>The singly-linked list of package singly, over an explicit store\<close>

text \<open>
  The Go package keeps a list as a chain of heap nodes reached from a \<open>List\<close> struct
  with the fields \<open>first\<close>, \<open>last\<close> and \<open>size\<close>. Several properties are about the
  pointers themselves (which node is the tail, what its forward link is), so the model
  keeps an explicit store: a node's address is its position in a list of nodes, a
  pointer is a \<open>nat option\<close> with \<open>None\<close> for \<open>nil\<close>, and \<open>&node{...}\<close> appends a
  node to the store and yields its position, an address no older pointer holds.

  Go's \<open>int\<close> has 64 bits. The field \<open>size\<close> counts nodes that are alive on the heap,
  each of at least sixteen bytes, so it stays far below \<open>2^63\<close> and no addition in the
  package wraps; \<open>size\<close> and the indices compared with it are modelled as \<open>int\<close>.

  The element type \<open>T\<close> is any type of sort \<open>zero\<close>; \<open>0\<close> stands for Go's zero value
  of \<open>T\<close> (what \<open>var t T\<close> declares and what \<open>make([]T, n)\<close> fills a slice with).
\<close>

subsection \<open>Errors, panics and outcomes\<close>

text \<open>The three sentinel values of package errors.\<close>

datatype error = ErrIndexOutOfBounds | ErrEmptyList | ErrElementNotFound

text \<open>
  What stops a call without a return: a field access through \<open>nil\<close>, a slice index out
  of range, \<open>make\<close> with a negative length. \<open>InvalidAddress\<close> is an address beyond the
  store; Go has no such pointer, and the model faults there rather than read an
  unspecified node.
\<close>

datatype panic = NilDereference | IndexOutOfRange | MakeSliceLen | InvalidAddress

text \<open>
  An outcome is \<open>None\<close> when the call never returns (a loop that follows forward
  links for ever), \<open>Some (Inl p)\<close> when it panics, \<open>Some (Inr r)\<close> when it returns \<open>r\<close>.
\<close>

type_synonym 'r run = "(panic + 'r) option"

abbreviation returns :: "'r \<Rightarrow> 'r run" where
  "returns r \<equiv> Some (Inr r)"

abbreviation panics :: "panic \<Rightarrow> 'r run" where
  "panics p \<equiv> Some (Inl p)"

definition seq :: "'r run \<Rightarrow> ('r \<Rightarrow> 's run) \<Rightarrow> 's run" where
  "seq m f = (case m of None \<Rightarrow> None | Some (Inl p) \<Rightarrow> Some (Inl p) | Some (Inr r) \<Rightarrow> f r)"

subsection \<open>Nodes, the store and the list header\<close>

record 'a node =
  valueN :: 'a
  nextN :: "nat option"

record 'a List =
  store :: "'a node list"
  firstL :: "nat option"
  lastL :: "nat option"
  sizeL :: int

text \<open>Reading a node through a pointer (\<open>p.value\<close>, \<open>p.next\<close>).\<close>

definition load :: "'a node list \<Rightarrow> nat option \<Rightarrow> 'a node run" where
  "load h r = (case r of None \<Rightarrow> panics NilDereference
     | Some p \<Rightarrow> if p < length h then returns (h ! p) else panics InvalidAddress)"

text \<open>The assignments \<open>p.next = v\<close> and \<open>p.value = v\<close>.\<close>

definition storeNext :: "'a node list \<Rightarrow> nat option \<Rightarrow> nat option \<Rightarrow> 'a node list run" where
  "storeNext h r v = (case r of None \<Rightarrow> panics NilDereference
     | Some p \<Rightarrow> if p < length h then returns (h[p := (h ! p)\<lparr>nextN := v\<rparr>])
                 else panics InvalidAddress)"

definition storeValue :: "'a node list \<Rightarrow> nat option \<Rightarrow> 'a \<Rightarrow> 'a node list run" where
  "storeValue h r v = (case r of None \<Rightarrow> panics NilDereference
     | Some p \<Rightarrow> if p < length h then returns (h[p := (h ! p)\<lparr>valueN := v\<rparr>])
                 else panics InvalidAddress)"

subsection \<open>Size, IsEmpty, inBounds, Clear\<close>

definition Size :: "'a List \<Rightarrow> int" where
  "Size list = sizeL list"

definition IsEmpty :: "'a List \<Rightarrow> bool" where
  "IsEmpty list = (sizeL list = 0)"

definition inBounds :: "'a List \<Rightarrow> int \<Rightarrow> bool" where
  "inBounds list index = (index \<ge> 0 \<and> index < sizeL list)"

definition Clear :: "'a List \<Rightarrow> 'a List" where
  "Clear list = list\<lparr>sizeL := 0, firstL := None, lastL := None\<rparr>"

subsection \<open>Add, Append, New, Prepend\<close>

text \<open>One round of the loop of \<open>Add\<close>.\<close>

definition Add_body :: "'a \<Rightarrow> 'a List \<Rightarrow> 'a List run" where
  "Add_body value list =
     (let elem = length (store list);
          list = list\<lparr>store := store list @ [\<lparr>valueN = value, nextN = None\<rparr>]\<rparr>
      in seq (if sizeL list = 0
              then returns (list\<lparr>firstL := Some elem, lastL := Some elem\<rparr>)
              else seq (storeNext (store list) (lastL list) (Some elem))
                     (\<lambda>h. returns (list\<lparr>store := h, lastL := Some elem\<rparr>)))
           (\<lambda>list. returns (list\<lparr>sizeL := sizeL list + 1\<rparr>)))"

fun Add :: "'a List \<Rightarrow> 'a list \<Rightarrow> 'a List run" where
  "Add list [] = returns list"
| "Add list (value # values) = seq (Add_body value list) (\<lambda>list. Add list values)"

definition Append :: "'a List \<Rightarrow> 'a list \<Rightarrow> 'a List run" where
  "Append list values = Add list values"

definition New :: "'a list \<Rightarrow> 'a List run" where
  "New values =
     (let list = \<lparr>store = [], firstL = None, lastL = None, sizeL = 0\<rparr>
      in if length values > 0 then Add list values else returns list)"

text \<open>The loop of \<open>Prepend\<close> counts \<open>i\<close> down from \<open>len(values) - 1\<close> to \<open>0\<close>.\<close>

function Prepend_loop :: "'a list \<Rightarrow> int \<Rightarrow> 'a List \<Rightarrow> 'a List run" where
  "Prepend_loop values i list =
     (if i \<ge> 0 then
        (if nat i < length values then
           (let elem = length (store list);
                list = list\<lparr>store := store list @ [\<lparr>valueN = values ! nat i, nextN = firstL list\<rparr>],
                            firstL := Some elem\<rparr>;
                list = (if sizeL list = 0 then list\<lparr>lastL := Some elem\<rparr> else list);
                list = list\<lparr>sizeL := sizeL list + 1\<rparr>
            in Prepend_loop values (i - 1) list)
         else panics IndexOutOfRange)
      else returns list)"
  by pat_completeness auto
termination
  by (relation "measure (\<lambda>(values, i, list). nat (i + 1))") auto

declare Prepend_loop.simps [simp del]

definition Prepend :: "'a List \<Rightarrow> 'a list \<Rightarrow> 'a List run" where
  "Prepend list values = Prepend_loop values (int (length values) - 1) list"

subsection \<open>First, Last, Get, Set\<close>

definition First :: "('a::zero) List \<Rightarrow> ('a \<times> error option) run" where
  "First list =
     (if IsEmpty list then returns (0, Some ErrEmptyList)
      else seq (load (store list) (firstL list)) (\<lambda>n. returns (valueN n, None)))"

definition Last :: "('a::zero) List \<Rightarrow> ('a \<times> error option) run" where
  "Last list =
     (if IsEmpty list then returns (0, Some ErrEmptyList)
      else seq (load (store list) (lastL list)) (\<lambda>n. returns (valueN n, None)))"

text \<open>
  The loop \<open>for i := 0; i != index; i, node = i+1, node.next { }\<close> of \<open>Get\<close> and of
  \<open>Set\<close>. With \<open>index < i\<close> it would leave only through a panic, or never.
\<close>

partial_function (option) forward ::
  "'a node list \<Rightarrow> int \<Rightarrow> int \<Rightarrow> nat option \<Rightarrow> nat option run" where
  "forward h i index node =
     (if i \<noteq> index then
        (case node of None \<Rightarrow> panics NilDereference
         | Some p \<Rightarrow> if p < length h then forward h (i + 1) index (nextN (h ! p))
                     else panics InvalidAddress)
      else returns node)"

declare forward.simps [code]

definition Get :: "('a::zero) List \<Rightarrow> int \<Rightarrow> ('a \<times> error option) run" where
  "Get list index =
     (if \<not> inBounds list index then returns (0, Some ErrIndexOutOfBounds)
      else seq (forward (store list) 0 index (firstL list)) (\<lambda>node.
           seq (load (store list) node) (\<lambda>n. returns (valueN n, None))))"

definition Set :: "'a List \<Rightarrow> int \<Rightarrow> 'a \<Rightarrow> (error option \<times> 'a List) run" where
  "Set list index value =
     (if \<not> inBounds list index then returns (Some ErrIndexOutOfBounds, list)
      else seq (forward (store list) 0 index (firstL list)) (\<lambda>node.
           seq (storeValue (store list) node value) (\<lambda>h.
           returns (None, list\<lparr>store := h\<rparr>))))"

subsection \<open>Values, IndexOf, Contains\<close>

partial_function (option) Values_loop ::
  "'a node list \<Rightarrow> int \<Rightarrow> nat option \<Rightarrow> 'a list \<Rightarrow> 'a list run" where
  "Values_loop h i node values =
     (case node of None \<Rightarrow> returns values
      | Some p \<Rightarrow>
          if p < length h then
            (if 0 \<le> i \<and> nat i < length values
             then Values_loop h (i + 1) (nextN (h ! p)) (values[nat i := valueN (h ! p)])
             else panics IndexOutOfRange)
          else panics InvalidAddress)"

declare Values_loop.simps [code]

definition Values :: "('a::zero) List \<Rightarrow> 'a list run" where
  "Values list =
     (if sizeL list < 0 then panics MakeSliceLen
      else Values_loop (store list) 0 (firstL list) (replicate (nat (sizeL list)) 0))"

partial_function (option) IndexOf_loop ::
  "'a node list \<Rightarrow> 'a \<Rightarrow> int \<Rightarrow> nat option \<Rightarrow> (int \<times> error option) run" where
  "IndexOf_loop h value index node =
     (case node of None \<Rightarrow> returns (- 1, Some ErrElementNotFound)
      | Some p \<Rightarrow>
          if p < length h then
            (if valueN (h ! p) = value then returns (index, None)
             else IndexOf_loop h value (index + 1) (nextN (h ! p)))
          else panics InvalidAddress)"

declare IndexOf_loop.simps [code]

definition IndexOf :: "'a List \<Rightarrow> 'a \<Rightarrow> (int \<times> error option) run" where
  "IndexOf list value =
     (if IsEmpty list then returns (- 1, Some ErrEmptyList)
      else IndexOf_loop (store list) value 0 (firstL list))"

text \<open>
  The working set \<open>valuesToFind\<close> of \<open>Contains\<close> is a Go \<open>map[T]bool\<close>: an association
  list with one entry for a key. \<open>m[k]\<close> on a missing key is \<open>false\<close>.
\<close>

definition index_map :: "('a \<times> bool) list \<Rightarrow> 'a \<Rightarrow> bool" where
  "index_map m k = (case map_of m k of None \<Rightarrow> False | Some b \<Rightarrow> b)"

partial_function (option) Contains_loop ::
  "'a node list \<Rightarrow> ('a \<times> bool) list \<Rightarrow> nat option \<Rightarrow> bool run" where
  "Contains_loop h valuesToFind node =
     (case node of None \<Rightarrow> returns False
      | Some p \<Rightarrow>
          if p < length h then
            (if index_map valuesToFind (valueN (h ! p)) then
               (let valuesToFind = AList.delete (valueN (h ! p)) valuesToFind
                in if length valuesToFind = 0 then returns True
                   else Contains_loop h valuesToFind (nextN (h ! p)))
             else Contains_loop h valuesToFind (nextN (h ! p)))
          else panics InvalidAddress)"

declare Contains_loop.simps [code]

definition Contains :: "'a List \<Rightarrow> 'a list \<Rightarrow> bool run" where
  "Contains list values =
     (if length values = 0 then returns True
      else if sizeL list = 0 \<or> sizeL list < int (length values) then returns False
      else Contains_loop (store list)
             (fold (\<lambda>value m. AList.update value True m) values []) (firstL list))"

subsection \<open>Remove, Swap, Insert\<close>

text \<open>
  The loop \<open>for i := 0; i != index; i, node = i+1, node.next { prev = node }\<close> of
  \<open>Remove\<close> and of \<open>Insert\<close>.
\<close>

partial_function (option) forward_prev ::
  "'a node list \<Rightarrow> int \<Rightarrow> int \<Rightarrow> nat option \<Rightarrow> nat option \<Rightarrow> (nat option \<times> nat option) run" where
  "forward_prev h i index prev node =
     (if i \<noteq> index then
        (case node of None \<Rightarrow> panics NilDereference
         | Some p \<Rightarrow> if p < length h then forward_prev h (i + 1) index node (nextN (h ! p))
                     else panics InvalidAddress)
      else returns (prev, node))"

declare forward_prev.simps [code]

definition Remove :: "'a List \<Rightarrow> int \<Rightarrow> (error option \<times> 'a List) run" where
  "Remove list index =
     (if IsEmpty list then returns (Some ErrEmptyList, list)
      else if \<not> inBounds list index then returns (Some ErrIndexOutOfBounds, list)
      else
        seq (forward_prev (store list) 0 index None (firstL list)) (\<lambda>(prev, node).
        seq (if node = firstL list
             then seq (load (store list) node) (\<lambda>n. returns (list\<lparr>firstL := nextN n\<rparr>))
             else returns list) (\<lambda>list.
        seq (returns (if node = lastL list then list\<lparr>lastL := prev\<rparr> else list)) (\<lambda>list.
        seq (if prev \<noteq> None
             then seq (load (store list) node) (\<lambda>n.
                  seq (storeNext (store list) prev (nextN n)) (\<lambda>h.
                  returns (list\<lparr>store := h\<rparr>)))
             else returns list) (\<lambda>list.
        returns (None, list\<lparr>sizeL := sizeL list - 1\<rparr>))))))"

partial_function (option) Swap_loop ::
  "'a node list \<Rightarrow> int \<Rightarrow> int \<Rightarrow> int \<Rightarrow> nat option \<Rightarrow> nat option \<Rightarrow> nat option
     \<Rightarrow> (nat option \<times> nat option) run" where
  "Swap_loop h i j n node1 node2 current =
     (case current of None \<Rightarrow> returns (node1, node2)
      | Some p \<Rightarrow>
          if node1 = None \<or> node2 = None then
            (let node1 = (if i = n then current else node1);
                 node2 = (if j = n then current else node2)
             in if p < length h then Swap_loop h i j (n + 1) node1 node2 (nextN (h ! p))
                else panics InvalidAddress)
          else returns (node1, node2))"

declare Swap_loop.simps [code]

text \<open>
  In \<open>node1.value, node2.value = node2.value, node1.value\<close> both right-hand sides are
  read first, then the two fields are written from left to right.
\<close>

definition Swap :: "'a List \<Rightarrow> int \<Rightarrow> int \<Rightarrow> (error option \<times> 'a List) run" where
  "Swap list i j =
     (if \<not> inBounds list i \<or> \<not> inBounds list j then returns (Some ErrIndexOutOfBounds, list)
      else if i = j then returns (None, list)
      else
        seq (Swap_loop (store list) i j 0 None None (firstL list)) (\<lambda>(node1, node2).
        seq (load (store list) node2) (\<lambda>n2.
        seq (load (store list) node1) (\<lambda>n1.
        seq (storeValue (store list) node1 (valueN n2)) (\<lambda>h.
        seq (storeValue h node2 (valueN n1)) (\<lambda>h.
        returns (None, list\<lparr>store := h\<rparr>)))))))"

text \<open>The inner loop of \<open>Insert\<close>: one new node for a value, linked behind \<open>prev\<close>.\<close>

fun Insert_loop :: "'a list \<Rightarrow> 'a node list \<Rightarrow> nat option \<Rightarrow> ('a node list \<times> nat option) run" where
  "Insert_loop [] h prev = returns (h, prev)"
| "Insert_loop (v # values) h prev =
     (let newNode = length h
      in seq (storeNext (h @ [\<lparr>valueN = v, nextN = None\<rparr>]) prev (Some newNode))
           (\<lambda>h. Insert_loop values h (Some newNode)))"

definition Insert :: "'a List \<Rightarrow> int \<Rightarrow> 'a list \<Rightarrow> (error option \<times> 'a List) run" where
  "Insert list index values =
     (if \<not> inBounds list index then
        (if index = sizeL list
         then seq (Append list values) (\<lambda>list. returns (None, list))
         else returns (Some ErrIndexOutOfBounds, list))
      else if index = 0 then seq (Prepend list values) (\<lambda>list. returns (None, list))
      else
        (let list = list\<lparr>sizeL := sizeL list + int (length values)\<rparr>
         in seq (forward_prev (store list) 0 index None (firstL list)) (\<lambda>(prev, current).
            seq (load (store list) prev) (\<lambda>n.
            seq (Insert_loop values (store list) prev) (\<lambda>(h, prev).
            seq (storeNext h prev (nextN n)) (\<lambda>h.
            returns (None, list\<lparr>store := h\<rparr>)))))))"

subsection \<open>Calls and sequences of calls\<close>

text \<open>
  A call of one exported method with its arguments, and what it hands back. A query
  method (\<open>Size\<close>, \<open>IsEmpty\<close>, \<open>First\<close>, \<open>Last\<close>, \<open>Get\<close>, \<open>Values\<close>, \<open>IndexOf\<close>,
  \<open>Contains\<close>) assigns to no field of the list and to no field of a node, so the list
  after such a call is the list before it; \<open>Values\<close> writes only to the slice it made.
\<close>

datatype 'a call =
    CallAdd "'a list" | CallAppend "'a list" | CallPrepend "'a list" | CallClear
  | CallRemove int | CallSwap int int | CallInsert int "'a list" | CallSet int 'a
  | CallSize | CallIsEmpty | CallFirst | CallLast | CallGet int | CallValues
  | CallIndexOf 'a | CallContains "'a list"

datatype 'a reply =
    NoResult | Err "error option" | Val 'a "error option" | Index int "error option"
  | Count int | Flag bool | Slice "'a list"

fun exec :: "('a::zero) call \<Rightarrow> 'a List \<Rightarrow> ('a reply \<times> 'a List) run" where
  "exec (CallAdd values) list = seq (Add list values) (\<lambda>list. returns (NoResult, list))"
| "exec (CallAppend values) list = seq (Append list values) (\<lambda>list. returns (NoResult, list))"
| "exec (CallPrepend values) list = seq (Prepend list values) (\<lambda>list. returns (NoResult, list))"
| "exec CallClear list = returns (NoResult, Clear list)"
| "exec (CallRemove index) list = seq (Remove list index) (\<lambda>(e, list). returns (Err e, list))"
| "exec (CallSwap i j) list = seq (Swap list i j) (\<lambda>(e, list). returns (Err e, list))"
| "exec (CallInsert index values) list =
     seq (Insert list index values) (\<lambda>(e, list). returns (Err e, list))"
| "exec (CallSet index value) list = seq (Set list index value) (\<lambda>(e, list). returns (Err e, list))"
| "exec CallSize list = returns (Count (Size list), list)"
| "exec CallIsEmpty list = returns (Flag (IsEmpty list), list)"
| "exec CallFirst list = seq (First list) (\<lambda>(v, e). returns (Val v e, list))"
| "exec CallLast list = seq (Last list) (\<lambda>(v, e). returns (Val v e, list))"
| "exec (CallGet index) list = seq (Get list index) (\<lambda>(v, e). returns (Val v e, list))"
| "exec CallValues list = seq (Values list) (\<lambda>values. returns (Slice values, list))"
| "exec (CallIndexOf value) list = seq (IndexOf list value) (\<lambda>(i, e). returns (Index i e, list))"
| "exec (CallContains values) list = seq (Contains list values) (\<lambda>b. returns (Flag b, list))"

fun is_query :: "'a call \<Rightarrow> bool" where
  "is_query CallSize = True"
| "is_query CallIsEmpty = True"
| "is_query CallFirst = True"
| "is_query CallLast = True"
| "is_query (CallGet index) = True"
| "is_query CallValues = True"
| "is_query (CallIndexOf value) = True"
| "is_query (CallContains values) = True"
| "is_query c = False"

text \<open>The error a call handed back; \<open>None\<close> is Go's \<open>nil\<close>, also for a method without an error result.\<close>

fun reply_error :: "'a reply \<Rightarrow> error option" where
  "reply_error (Err e) = e"
| "reply_error (Val v e) = e"
| "reply_error (Index i e) = e"
| "reply_error r = None"

fun run_calls :: "('a::zero) List \<Rightarrow> 'a call list \<Rightarrow> 'a List run" where
  "run_calls list [] = returns list"
| "run_calls list (c # cs) = seq (exec c list) (\<lambda>(r, list). run_calls list cs)"

subsection \<open>The query methods as transitions of the list\<close>

text \<open>
  The query methods once more, now with the list they leave behind: each takes the list
  behind the receiver and returns, with its result, the list as its body leaves it. The
  bodies are the ones above, statement by statement, and the list is handed from each
  statement to the next. Reading a field of the list or a node hands the list on;
  \<open>values[i] = node.value\<close> writes the slice that \<open>make\<close> has created and
  \<open>delete(valuesToFind, ...)\<close> writes the working map, both local to the call.
\<close>

definition read_node :: "'a List \<Rightarrow> nat option \<Rightarrow> ('a node \<times> 'a List) run" where
  "read_node list r = seq (load (store list) r) (\<lambda>n. returns (n, list))"

definition Size_call :: "'a List \<Rightarrow> (int \<times> 'a List) run" where
  "Size_call list = returns (sizeL list, list)"

definition IsEmpty_call :: "'a List \<Rightarrow> (bool \<times> 'a List) run" where
  "IsEmpty_call list = returns (sizeL list = 0, list)"

definition inBounds_call :: "'a List \<Rightarrow> int \<Rightarrow> (bool \<times> 'a List) run" where
  "inBounds_call list index = returns (index \<ge> 0 \<and> index < sizeL list, list)"

definition First_call :: "('a::zero) List \<Rightarrow> (('a \<times> error option) \<times> 'a List) run" where
  "First_call list =
     seq (IsEmpty_call list) (\<lambda>(empty, list).
       if empty then returns ((0, Some ErrEmptyList), list)
       else seq (read_node list (firstL list)) (\<lambda>(n, list). returns ((valueN n, None), list)))"

definition Last_call :: "('a::zero) List \<Rightarrow> (('a \<times> error option) \<times> 'a List) run" where
  "Last_call list =
     seq (IsEmpty_call list) (\<lambda>(empty, list).
       if empty then returns ((0, Some ErrEmptyList), list)
       else seq (read_node list (lastL list)) (\<lambda>(n, list). returns ((valueN n, None), list)))"

partial_function (option) Get_call_loop ::
  "'a List \<Rightarrow> int \<Rightarrow> int \<Rightarrow> nat option \<Rightarrow> (nat option \<times> 'a List) run" where
  "Get_call_loop list i index node =
     (if i \<noteq> index then
        (case node of None \<Rightarrow> panics NilDereference
         | Some p \<Rightarrow> if p < length (store list)
                     then Get_call_loop list (i + 1) index (nextN (store list ! p))
                     else panics InvalidAddress)
      else returns (node, list))"

declare Get_call_loop.simps [code]

definition Get_call :: "('a::zero) List \<Rightarrow> int \<Rightarrow> (('a \<times> error option) \<times> 'a List) run" where
  "Get_call list index =
     seq (inBounds_call list index) (\<lambda>(ok, list).
       if \<not> ok then returns ((0, Some ErrIndexOutOfBounds), list)
       else seq (Get_call_loop list 0 index (firstL list)) (\<lambda>(node, list).
            seq (read_node list node) (\<lambda>(n, list). returns ((valueN n, None), list))))"

partial_function (option) Values_call_loop ::
  "'a List \<Rightarrow> int \<Rightarrow> nat option \<Rightarrow> 'a list \<Rightarrow> ('a list \<times> 'a List) run" where
  "Values_call_loop list i node values =
     (case node of None \<Rightarrow> returns (values, list)
      | Some p \<Rightarrow>
          if p < length (store list) then
            (if 0 \<le> i \<and> nat i < length values
             then Values_call_loop list (i + 1) (nextN (store list ! p))
                    (values[nat i := valueN (store list ! p)])
             else panics IndexOutOfRange)
          else panics InvalidAddress)"

declare Values_call_loop.simps [code]

definition Values_call :: "('a::zero) List \<Rightarrow> ('a list \<times> 'a List) run" where
  "Values_call list =
     (if sizeL list < 0 then panics MakeSliceLen
      else Values_call_loop list 0 (firstL list) (replicate (nat (sizeL list)) 0))"

partial_function (option) IndexOf_call_loop ::
  "'a List \<Rightarrow> 'a \<Rightarrow> int \<Rightarrow> nat option \<Rightarrow> ((int \<times> error option) \<times> 'a List) run" where
  "IndexOf_call_loop list value index node =
     (case node of None \<Rightarrow> returns ((- 1, Some ErrElementNotFound), list)
      | Some p \<Rightarrow>
          if p < length (store list) then
            (if valueN (store list ! p) = value then returns ((index, None), list)
             else IndexOf_call_loop list value (index + 1) (nextN (store list ! p)))
          else panics InvalidAddress)"

declare IndexOf_call_loop.simps [code]

definition IndexOf_call :: "'a List \<Rightarrow> 'a \<Rightarrow> ((int \<times> error option) \<times> 'a List) run" where
  "IndexOf_call list value =
     seq (IsEmpty_call list) (\<lambda>(empty, list).
       if empty then returns ((- 1, Some ErrEmptyList), list)
       else IndexOf_call_loop list value 0 (firstL list))"

partial_function (option) Contains_call_loop ::
  "'a List \<Rightarrow> ('a \<times> bool) list \<Rightarrow> nat option \<Rightarrow> (bool \<times> 'a List) run" where
  "Contains_call_loop list valuesToFind node =
     (case node of None \<Rightarrow> returns (False, list)
      | Some p \<Rightarrow>
          if p < length (store list) then
            (if index_map valuesToFind (valueN (store list ! p)) then
               (let valuesToFind = AList.delete (valueN (store list ! p)) valuesToFind
                in if length valuesToFind = 0 then returns (True, list)
                   else Contains_call_loop list valuesToFind (nextN (store list ! p)))
             else Contains_call_loop list valuesToFind (nextN (store list ! p)))
          else panics InvalidAddress)"

declare Contains_call_loop.simps [code]

definition Contains_call :: "'a List \<Rightarrow> 'a list \<Rightarrow> (bool \<times> 'a List) run" where
  "Contains_call list values =
     (if length values = 0 then returns (True, list)
      else if sizeL list = 0 \<or> sizeL list < int (length values) then returns (False, list)
      else Contains_call_loop list
             (fold (\<lambda>value m. AList.update value True m) values []) (firstL list))"

text \<open>A query with its arguments, and the call of it on a list.\<close>

datatype 'a query =
    AskSize | AskIsEmpty | AskFirst | AskLast | AskGet int | AskValues
  | AskIndexOf 'a | AskContains "'a list"

fun ask :: "('a::zero) query \<Rightarrow> 'a List \<Rightarrow> ('a reply \<times> 'a List) run" where
  "ask AskSize list = seq (Size_call list) (\<lambda>(n, list). returns (Count n, list))"
| "ask AskIsEmpty list = seq (IsEmpty_call list) (\<lambda>(b, list). returns (Flag b, list))"
| "ask AskFirst list = seq (First_call list) (\<lambda>((v, e), list). returns (Val v e, list))"
| "ask AskLast list = seq (Last_call list) (\<lambda>((v, e), list). returns (Val v e, list))"
| "ask (AskGet index) list = seq (Get_call list index) (\<lambda>((v, e), list). returns (Val v e, list))"
| "ask AskValues list = seq (Values_call list) (\<lambda>(values, list). returns (Slice values, list))"
| "ask (AskIndexOf value) list =
     seq (IndexOf_call list value) (\<lambda>((i, e), list). returns (Index i e, list))"
| "ask (AskContains values) list =
     seq (Contains_call list values) (\<lambda>(b, list). returns (Flag b, list))"

text \<open>The same query as a call of the harness above.\<close>

fun call_of :: "'a query \<Rightarrow> 'a call" where
  "call_of AskSize = CallSize"
| "call_of AskIsEmpty = CallIsEmpty"
| "call_of AskFirst = CallFirst"
| "call_of AskLast = CallLast"
| "call_of (AskGet index) = CallGet index"
| "call_of AskValues = CallValues"
| "call_of (AskIndexOf value) = CallIndexOf value"
| "call_of (AskContains values) = CallContains values"

subsection \<open>Chains of nodes and the structural invariant\<close>

text \<open>
  \<open>seg h r ps q\<close>: following forward links from the pointer \<open>r\<close> visits the nodes at the
  addresses \<open>ps\<close>, in this order, and then stands at \<open>q\<close>.
\<close>

fun seg :: "'a node list \<Rightarrow> nat option \<Rightarrow> nat list \<Rightarrow> nat option \<Rightarrow> bool" where
  "seg h r [] q = (r = q)"
| "seg h r (p # ps) q = (r = Some p \<and> p < length h \<and> seg h (nextN (h ! p)) ps q)"

text \<open>
  \<open>follow h n r\<close> takes \<open>n\<close> steps from \<open>r\<close>, a step being a visit of the node under
  the pointer and a move to its forward link: the addresses visited and the pointer held
  at the end, or \<open>None\<close> when \<open>nil\<close> comes before the \<open>n\<close> steps are done.
\<close>

fun follow :: "'a node list \<Rightarrow> nat \<Rightarrow> nat option \<Rightarrow> (nat list \<times> nat option) option" where
  "follow h 0 r = Some ([], r)"
| "follow h (Suc n) r =
     (case r of None \<Rightarrow> None
      | Some p \<Rightarrow> if p < length h
                  then map_option (\<lambda>(ps, q). (p # ps, q)) (follow h n (nextN (h ! p)))
                  else None)"

text \<open>
  The invariant of the data model: \<open>size\<close> is zero iff the head is none iff the tail
  is none; \<open>size\<close> steps from the head visit \<open>size\<close> different nodes, the last of them
  the tail, and end at none; the tail's forward link is none.
\<close>

definition invariant :: "'a List \<Rightarrow> bool" where
  "invariant list =
     ((sizeL list = 0 \<longleftrightarrow> firstL list = None) \<and>
      (firstL list = None \<longleftrightarrow> lastL list = None) \<and>
      0 \<le> sizeL list \<and>
      (case follow (store list) (nat (sizeL list)) (firstL list) of
         None \<Rightarrow> False
       | Some (ps, q) \<Rightarrow>
           q = None \<and> distinct ps \<and> lastL list = (if ps = [] then None else Some (last ps))) \<and>
      (case lastL list of
         None \<Rightarrow> True
       | Some t \<Rightarrow> t < length (store list) \<and> nextN (store list ! t) = None))"

text \<open>
  \<open>holds list ps xs\<close>: the list is the chain of the nodes \<open>ps\<close> and these carry the
  values \<open>xs\<close>.
\<close>

definition holds :: "'a List \<Rightarrow> nat list \<Rightarrow> 'a list \<Rightarrow> bool" where
  "holds list ps xs =
     (seg (store list) (firstL list) ps None \<and>
      sizeL list = int (length ps) \<and>
      lastL list = (if ps = [] then None else Some (last ps)) \<and>
      xs = map (\<lambda>p. valueN (store list ! p)) ps)"

subsection \<open>Concrete lists\<close>

text \<open>
  The lists that \<open>New()\<close>, \<open>New(1)\<close> and \<open>New(1, 2, 3)\<close> build, and the last of them
  after \<open>Remove(0)\<close>, for the scenarios.
\<close>

definition list_empty :: "int List" where
  "list_empty = \<lparr>store = [], firstL = None, lastL = None, sizeL = 0\<rparr>"

definition list_1 :: "int List" where
  "list_1 = \<lparr>store = [\<lparr>valueN = 1, nextN = None\<rparr>],
             firstL = Some 0, lastL = Some 0, sizeL = 1\<rparr>"

definition list_23 :: "int List" where
  "list_23 = \<lparr>store = [\<lparr>valueN = 1, nextN = Some 1\<rparr>, \<lparr>valueN = 2, nextN = Some 2\<rparr>,
                        \<lparr>valueN = 3, nextN = None\<rparr>],
              firstL = Some 1, lastL = Some 2, sizeL = 2\<rparr>"

definition list_123 :: "int List" where
  "list_123 = \<lparr>store = [\<lparr>valueN = 1, nextN = Some 1\<rparr>, \<lparr>valueN = 2, nextN = Some 2\<rparr>,
                         \<lparr>valueN = 3, nextN = None\<rparr>],
               firstL = Some 0, lastL = Some 2, sizeL = 3\<rparr>"


section \<open>Chains in the store\<close>

subsection \<open>Sequencing of outcomes\<close>

lemma seq_returns [simp]: "seq (returns r) f = f r"
  by (simp add: seq_def)

lemma seq_panics [simp]: "seq (panics p) f = panics p"
  by (simp add: seq_def)

lemma seq_None [simp]: "seq None f = None"
  by (simp add: seq_def)

lemma seq_eq_returns:
  "seq m f = returns y \<longleftrightarrow> (\<exists>x. m = returns x \<and> f x = returns y)"
  by (auto simp: seq_def split: option.splits sum.splits)

subsection \<open>Chains\<close>

lemma seg_append: "seg h r (ps @ qs) q \<longleftrightarrow> (\<exists>m. seg h r ps m \<and> seg h m qs q)"
  by (induction ps arbitrary: r) auto

lemma seg_snoc:
  "seg h r (ps @ [p]) q \<longleftrightarrow> seg h r ps (Some p) \<and> p < length h \<and> nextN (h ! p) = q"
  by (auto simp: seg_append)

lemma seg_bound: "seg h r ps q \<Longrightarrow> p \<in> set ps \<Longrightarrow> p < length h"
  by (induction ps arbitrary: r) auto

lemma seg_unique: "seg h r ps None \<Longrightarrow> seg h r qs None \<Longrightarrow> ps = qs"
proof (induction ps arbitrary: r qs)
  case Nil
  then show ?case by (cases qs) simp_all
next
  case (Cons p ps)
  from Cons.prems obtain qs' where qs: "qs = p # qs'"
    by (cases qs) simp_all
  from Cons.prems qs have "ps = qs'"
    by (intro Cons.IH [of "nextN (h ! p)"]) simp_all
  with qs show ?case by simp
qed

lemma seg_distinct: "seg h r ps None \<Longrightarrow> distinct ps"
proof (induction ps arbitrary: r)
  case Nil
  then show ?case by simp
next
  case (Cons p ps)
  have tl: "seg h (nextN (h ! p)) ps None" and p: "p < length h"
    using Cons.prems by auto
  have "p \<notin> set ps"
  proof
    assume "p \<in> set ps"
    then obtain as bs where ps: "ps = as @ p # bs"
      by (auto simp: in_set_conv_decomp)
    with tl have "seg h (nextN (h ! p)) bs None"
      by (auto simp: seg_append)
    with tl have "ps = bs" by (rule seg_unique)
    with ps show False by simp
  qed
  with Cons.IH [OF tl] show ?case by simp
qed

lemma seg_store_append: "seg h r ps q \<Longrightarrow> seg (h @ ns) r ps q"
  by (induction ps arbitrary: r) (simp_all add: nth_append)

lemma seg_update_notin: "a \<notin> set ps \<Longrightarrow> seg (h[a := n]) r ps q = seg h r ps q"
  by (induction ps arbitrary: r) simp_all

lemma next_update_value:
  "p < length h \<Longrightarrow> nextN (h[a := (h ! a)\<lparr>valueN := v\<rparr>] ! p) = nextN (h ! p)"
  by (cases "p = a") simp_all

lemma seg_update_value: "seg (h[a := (h ! a)\<lparr>valueN := v\<rparr>]) r ps q = seg h r ps q"
  by (induction ps arbitrary: r) (simp_all add: next_update_value cong: conj_cong)

subsection \<open>The invariant, through the chain of nodes\<close>

lemma follow_iff: "follow h n r = Some (ps, q) \<longleftrightarrow> seg h r ps q \<and> length ps = n"
proof (induction n arbitrary: r ps)
  case 0
  then show ?case by auto
next
  case (Suc n)
  show ?case
  proof (cases ps)
    case Nil
    then show ?thesis by (auto split: option.splits)
  next
    case (Cons a as)
    then show ?thesis using Suc [of "nextN (h ! a)" as]
      by (auto split: option.splits)
  qed
qed

lemma invariant_iff: "invariant list \<longleftrightarrow> (\<exists>ps xs. holds list ps xs)"
proof
  assume inv: "invariant list"
  then obtain ps q where f: "follow (store list) (nat (sizeL list)) (firstL list) = Some (ps, q)"
    by (auto simp: invariant_def split: option.splits)
  with inv have "q = None" "lastL list = (if ps = [] then None else Some (last ps))" "0 \<le> sizeL list"
    by (auto simp: invariant_def)
  moreover from f have "seg (store list) (firstL list) ps q" "length ps = nat (sizeL list)"
    by (simp_all add: follow_iff)
  ultimately have "holds list ps (map (\<lambda>p. valueN (store list ! p)) ps)"
    by (simp add: holds_def)
  then show "\<exists>ps xs. holds list ps xs" by blast
next
  assume "\<exists>ps xs. holds list ps xs"
  then obtain ps xs where h: "holds list ps xs" by blast
  then have s: "seg (store list) (firstL list) ps None" and n: "sizeL list = int (length ps)"
    and t: "lastL list = (if ps = [] then None else Some (last ps))"
    by (simp_all add: holds_def)
  from s n have f: "follow (store list) (nat (sizeL list)) (firstL list) = Some (ps, None)"
    by (simp add: follow_iff)
  have d: "distinct ps" using s by (rule seg_distinct)
  have e: "firstL list = None \<longleftrightarrow> ps = []" using s by (cases ps) auto
  have l: "case lastL list of None \<Rightarrow> True
           | Some t \<Rightarrow> t < length (store list) \<and> nextN (store list ! t) = None"
  proof (cases ps rule: rev_cases)
    case Nil
    with t show ?thesis by simp
  next
    case (snoc as a)
    with s t show ?thesis by (simp add: seg_snoc)
  qed
  show "invariant list"
    unfolding invariant_def using f d e l n t by auto
qed


subsection \<open>The walking loops along a chain\<close>

lemma seg_cong:
  "seg h r ps q \<Longrightarrow> (\<And>p. p \<in> set ps \<Longrightarrow> p < length h' \<and> nextN (h' ! p) = nextN (h ! p))
     \<Longrightarrow> seg h' r ps q"
  by (induction ps arbitrary: r) simp_all

lemma value_update_next [simp]:
  "valueN (h[a := (h ! a)\<lparr>nextN := v\<rparr>] ! p) = valueN (h ! p)"
proof (cases "a < length h")
  case True
  then show ?thesis by (cases "p = a") simp_all
next
  case False
  then show ?thesis by (simp add: list_update_beyond)
qed

lemma forward_seg:
  "seg h r ps q \<Longrightarrow> index = i + int (length ps) \<Longrightarrow> forward h i index r = returns q"
proof (induction ps arbitrary: r i)
  case Nil
  then show ?case by (subst forward.simps) simp
next
  case (Cons p ps)
  have "forward h (i + 1) index (nextN (h ! p)) = returns q"
    using Cons.prems by (intro Cons.IH) simp_all
  then show ?case using Cons.prems by (subst forward.simps) simp
qed

lemma forward_prev_seg:
  "seg h r ps q \<Longrightarrow> index = i + int (length ps) \<Longrightarrow>
   forward_prev h i index prev r = returns (if ps = [] then prev else Some (last ps), q)"
proof (induction ps arbitrary: r i prev)
  case Nil
  then show ?case by (subst forward_prev.simps) simp
next
  case (Cons p ps)
  have "forward_prev h (i + 1) index (Some p) (nextN (h ! p)) =
        returns (if ps = [] then Some p else Some (last ps), q)"
    using Cons.prems by (intro Cons.IH) simp_all
  then show ?case using Cons.prems by (subst forward_prev.simps) simp
qed

lemma Values_loop_seg:
  "seg h r ps None \<Longrightarrow> 0 \<le> i \<Longrightarrow> nat i + length ps \<le> length vals \<Longrightarrow>
   Values_loop h i r vals =
     returns (take (nat i) vals @ map (\<lambda>p. valueN (h ! p)) ps @ drop (nat i + length ps) vals)"
proof (induction ps arbitrary: r i vals)
  case Nil
  then show ?case by (subst Values_loop.simps) simp
next
  case (Cons p ps)
  let ?vs = "vals[nat i := valueN (h ! p)]"
  have lt: "nat i < length vals" using Cons.prems by simp
  have "Values_loop h (i + 1) (nextN (h ! p)) ?vs =
        returns (take (nat (i + 1)) ?vs @ map (\<lambda>p. valueN (h ! p)) ps @ drop (nat (i + 1) + length ps) ?vs)"
    using Cons.prems by (intro Cons.IH) (simp_all add: nat_add_distrib)
  moreover have "nat (i + 1) = Suc (nat i)" using Cons.prems by simp
  moreover have "take (Suc (nat i)) ?vs = take (nat i) vals @ [valueN (h ! p)]"
    using lt by (simp add: take_Suc_conv_app_nth)
  moreover have "drop (Suc (nat i) + length ps) ?vs = drop (Suc (nat i) + length ps) vals"
    by (simp add: drop_update_cancel)
  ultimately have "Values_loop h (i + 1) (nextN (h ! p)) ?vs =
        returns (take (nat i) vals @ map (\<lambda>p. valueN (h ! p)) (p # ps)
                 @ drop (nat i + length (p # ps)) vals)"
    by simp
  then show ?case using Cons.prems lt by (subst Values_loop.simps) simp
qed

lemma holds_Values: "holds list ps xs \<Longrightarrow> Values list = returns xs"
  using Values_loop_seg [of "store list" "firstL list" ps 0 "replicate (length ps) 0"]
  by (simp add: holds_def Values_def)

lemma holds_unique:
  assumes "holds list ps xs" and "holds list qs ys"
  shows "qs = ps \<and> ys = xs"
proof -
  have "seg (store list) (firstL list) qs None" "seg (store list) (firstL list) ps None"
    using assms unfolding holds_def by blast+
  then have "qs = ps" by (rule seg_unique)
  moreover have "xs = map (\<lambda>p. valueN (store list ! p)) ps"
    "ys = map (\<lambda>p. valueN (store list ! p)) qs"
    using assms unfolding holds_def by blast+
  ultimately show ?thesis by simp
qed

lemma holds_length: "holds list ps xs \<Longrightarrow> length xs = length ps \<and> sizeL list = int (length xs)"
  by (simp add: holds_def)

lemma invariant_Values:
  "invariant list \<Longrightarrow> Values list = returns xs \<Longrightarrow> \<exists>ps. holds list ps xs"
  using holds_Values by (fastforce simp: invariant_iff)


section \<open>What each method does on a well-formed list\<close>

subsection \<open>First, Last, Get, IndexOf\<close>

lemma holds_seg: "holds list ps xs \<Longrightarrow> seg (store list) (firstL list) ps None"
  unfolding holds_def by blast

lemma holds_size: "holds list ps xs \<Longrightarrow> sizeL list = int (length ps)"
  unfolding holds_def by blast

lemma holds_last: "holds list ps xs \<Longrightarrow> lastL list = (if ps = [] then None else Some (last ps))"
  unfolding holds_def by blast

lemma holds_vals: "holds list ps xs \<Longrightarrow> xs = map (\<lambda>p. valueN (store list ! p)) ps"
  unfolding holds_def by blast

lemma holdsI:
  "seg (store list) (firstL list) ps None \<Longrightarrow> sizeL list = int (length ps) \<Longrightarrow>
   lastL list = (if ps = [] then None else Some (last ps)) \<Longrightarrow>
   xs = map (\<lambda>p. valueN (store list ! p)) ps \<Longrightarrow> holds list ps xs"
  unfolding holds_def by blast

lemma holds_bound: "holds list ps xs \<Longrightarrow> p \<in> set ps \<Longrightarrow> p < length (store list)"
  using seg_bound holds_seg by blast

lemma holds_distinct: "holds list ps xs \<Longrightarrow> distinct ps"
  using seg_distinct holds_seg by blast

lemma seg_take: "seg h r ps q \<Longrightarrow> k < length ps \<Longrightarrow> seg h r (take k ps) (Some (ps ! k))"
proof (induction ps arbitrary: r k)
  case Nil
  then show ?case by simp
next
  case (Cons p ps)
  then show ?case by (cases k) simp_all
qed

lemma seg_drop: "seg h r ps q \<Longrightarrow> k < length ps \<Longrightarrow> seg h (Some (ps ! k)) (drop k ps) q"
proof (induction ps arbitrary: r k)
  case Nil
  then show ?case by simp
next
  case (Cons p ps)
  show ?case
  proof (cases k)
    case 0
    with Cons.prems show ?thesis by simp
  next
    case (Suc j)
    with Cons.prems have "seg h (Some (ps ! j)) (drop j ps) q"
      by (intro Cons.IH [of "nextN (h ! p)"]) simp_all
    with Suc show ?thesis by simp
  qed
qed

lemma load_Some [simp]: "p < length h \<Longrightarrow> load h (Some p) = returns (h ! p)"
  by (simp add: load_def)

lemma holds_First:
  "holds list ps xs \<Longrightarrow>
   First list = returns (if xs = [] then (0, Some ErrEmptyList) else (hd xs, None))"
proof (cases ps)
  case Nil
  assume "holds list ps xs"
  with Nil show ?thesis
    using holds_size [of list ps xs] holds_vals [of list ps xs] by (simp add: First_def IsEmpty_def)
next
  case (Cons p qs)
  assume h: "holds list ps xs"
  from holds_seg [OF h] Cons have "firstL list = Some p" "p < length (store list)" by simp_all
  moreover from holds_vals [OF h] Cons have "xs \<noteq> []" "hd xs = valueN (store list ! p)" by simp_all
  moreover from holds_size [OF h] Cons have "sizeL list \<noteq> 0" by simp
  ultimately show ?thesis by (simp add: First_def IsEmpty_def)
qed

lemma holds_Last:
  "holds list ps xs \<Longrightarrow>
   Last list = returns (if xs = [] then (0, Some ErrEmptyList) else (last xs, None))"
proof (cases "ps = []")
  case True
  assume "holds list ps xs"
  with True show ?thesis
    using holds_size [of list ps xs] holds_vals [of list ps xs] by (simp add: Last_def IsEmpty_def)
next
  case False
  assume h: "holds list ps xs"
  from holds_last [OF h] False have "lastL list = Some (last ps)" by simp
  moreover from holds_bound [OF h] False have "last ps < length (store list)" by simp
  moreover from holds_vals [OF h] False have "xs \<noteq> []" "last xs = valueN (store list ! last ps)"
    by (simp_all add: last_map)
  moreover from holds_size [OF h] False have "sizeL list \<noteq> 0" by simp
  ultimately show ?thesis by (simp add: Last_def IsEmpty_def)
qed

lemma holds_forward:
  assumes h: "holds list ps xs" and i: "0 \<le> i" "i < int (length ps)"
  shows "forward (store list) 0 i (firstL list) = returns (Some (ps ! nat i))"
proof -
  have "seg (store list) (firstL list) (take (nat i) ps) (Some (ps ! nat i))"
    using holds_seg [OF h] i by (intro seg_take) simp_all
  moreover have "i = 0 + int (length (take (nat i) ps))" using i by simp
  ultimately show ?thesis by (rule forward_seg)
qed

lemma holds_Get:
  assumes h: "holds list ps xs"
  shows "Get list i = returns (if 0 \<le> i \<and> i < int (length xs) then (xs ! nat i, None)
                               else (0, Some ErrIndexOutOfBounds))"
proof (cases "0 \<le> i \<and> i < int (length xs)")
  case False
  then show ?thesis using holds_size [OF h] holds_vals [OF h]
    by (simp add: Get_def inBounds_def)
next
  case True
  then have i: "0 \<le> i" "i < int (length ps)" using holds_vals [OF h] by simp_all
  then have "ps ! nat i < length (store list)" using holds_bound [OF h] by simp
  moreover have "xs ! nat i = valueN (store list ! (ps ! nat i))"
    using holds_vals [OF h] i by simp
  moreover have "inBounds list i" using i holds_size [OF h] by (simp add: inBounds_def)
  ultimately show ?thesis using True holds_forward [OF h i] by (simp add: Get_def)
qed

lemma IndexOf_loop_seg:
  "seg h r ps None \<Longrightarrow>
   IndexOf_loop h v index r =
     returns (if v \<in> set (map (\<lambda>p. valueN (h ! p)) ps)
              then (index + int (length (takeWhile (\<lambda>x. x \<noteq> v) (map (\<lambda>p. valueN (h ! p)) ps))), None)
              else (- 1, Some ErrElementNotFound))"
proof (induction ps arbitrary: r index)
  case Nil
  then show ?case by (subst IndexOf_loop.simps) simp
next
  case (Cons p ps)
  show ?case
  proof (cases "valueN (h ! p) = v")
    case True
    with Cons.prems show ?thesis by (subst IndexOf_loop.simps) simp
  next
    case False
    have "IndexOf_loop h v (index + 1) (nextN (h ! p)) =
     returns (if v \<in> set (map (\<lambda>p. valueN (h ! p)) ps)
              then (index + 1 + int (length (takeWhile (\<lambda>x. x \<noteq> v) (map (\<lambda>p. valueN (h ! p)) ps))), None)
              else (- 1, Some ErrElementNotFound))"
      using Cons.prems by (intro Cons.IH) simp
    with False Cons.prems show ?thesis by (subst IndexOf_loop.simps) simp
  qed
qed

lemma holds_IndexOf:
  assumes h: "holds list ps xs"
  shows "IndexOf list v =
     returns (if xs = [] then (- 1, Some ErrEmptyList)
              else if v \<in> set xs then (int (length (takeWhile (\<lambda>x. x \<noteq> v) xs)), None)
              else (- 1, Some ErrElementNotFound))"
proof (cases "xs = []")
  case True
  then show ?thesis using holds_size [OF h] holds_vals [OF h] by (simp add: IndexOf_def IsEmpty_def)
next
  case False
  then have "sizeL list \<noteq> 0" using holds_size [OF h] holds_vals [OF h] by simp
  then show ?thesis
    using False IndexOf_loop_seg [OF holds_seg [OF h], of v 0] holds_vals [OF h]
    by (simp add: IndexOf_def IsEmpty_def)
qed


subsection \<open>Contains\<close>

lemma subset_insert_notin: "x \<notin> A \<Longrightarrow> (A \<subseteq> B) = (A \<subseteq> insert x B)"
  by blast

lemma diff_subset_insert: "(A - {x} \<subseteq> B) = (A \<subseteq> insert x B)"
  by blast

lemma index_map_keys:
  "\<forall>k \<in> fst ` set m. map_of m k = Some True \<Longrightarrow> index_map m k = (k \<in> fst ` set m)"
proof (cases "k \<in> fst ` set m")
  case True
  assume "\<forall>k \<in> fst ` set m. map_of m k = Some True"
  with True have "map_of m k = Some True" by blast
  with True show ?thesis by (simp add: index_map_def)
next
  case False
  then have "map_of m k = None" by (simp add: map_of_eq_None_iff)
  with False show ?thesis by (simp add: index_map_def)
qed

lemma keys_delete: "fst ` set (AList.delete k m) = fst ` set m - {k}"
proof -
  have "set (map fst (AList.delete k m)) = set (map fst m) - {k}"
    by (simp only: delete_keys set_removeAll)
  then show ?thesis by simp
qed

lemma true_delete:
  assumes "distinct (map fst m)" and "\<forall>k \<in> fst ` set m. map_of m k = Some True"
  shows "\<forall>k' \<in> fst ` set (AList.delete k m). map_of (AList.delete k m) k' = Some True"
proof
  fix k' assume "k' \<in> fst ` set (AList.delete k m)"
  then have "k' \<in> fst ` set m" "k' \<noteq> k" by (simp_all add: keys_delete)
  moreover from this assms(2) have "map_of m k' = Some True" by blast
  ultimately show "map_of (AList.delete k m) k' = Some True" by simp
qed

lemma true_update:
  assumes "\<forall>k \<in> fst ` set m. map_of m k = Some True"
  shows "\<forall>k' \<in> fst ` set (AList.update k True m). map_of (AList.update k True m) k' = Some True"
proof
  fix k' assume "k' \<in> fst ` set (AList.update k True m)"
  then have "k' = k \<or> k' \<in> fst ` set m" by (simp add: dom_update)
  with assms show "map_of (AList.update k True m) k' = Some True"
    by (auto simp: update_conv')
qed

lemma fold_update_keys:
  "fst ` set (fold (\<lambda>v m. AList.update v True m) vs m) = fst ` set m \<union> set vs"
  by (induction vs arbitrary: m) (simp_all add: dom_update Un_commute insert_commute)

lemma fold_update_distinct:
  "distinct (map fst m) \<Longrightarrow> distinct (map fst (fold (\<lambda>v m. AList.update v True m) vs m))"
  by (induction vs arbitrary: m) (simp_all add: distinct_update)

lemma fold_update_true:
  "\<forall>k \<in> fst ` set m. map_of m k = Some True \<Longrightarrow>
   \<forall>k \<in> fst ` set (fold (\<lambda>v m. AList.update v True m) vs m).
      map_of (fold (\<lambda>v m. AList.update v True m) vs m) k = Some True"
proof (induction vs arbitrary: m)
  case Nil
  then show ?case by simp
next
  case (Cons v vs)
  have "\<forall>k \<in> fst ` set (AList.update v True m). map_of (AList.update v True m) k = Some True"
    using Cons.prems by (rule true_update)
  then show ?case using Cons.IH [of "AList.update v True m"] by simp
qed

lemma Contains_loop_seg:
  "seg h r ps None \<Longrightarrow> distinct (map fst m) \<Longrightarrow>
   \<forall>k \<in> fst ` set m. map_of m k = Some True \<Longrightarrow> m \<noteq> [] \<Longrightarrow>
   Contains_loop h m r = returns (fst ` set m \<subseteq> set (map (\<lambda>p. valueN (h ! p)) ps))"
proof (induction ps arbitrary: r m)
  case Nil
  then show ?case by (subst Contains_loop.simps) simp
next
  case (Cons p ps)
  let ?x = "valueN (h ! p)"
  let ?xs = "map (\<lambda>p. valueN (h ! p)) ps"
  have r: "r = Some p" "p < length h" and tl: "seg h (nextN (h ! p)) ps None"
    using Cons.prems(1) by simp_all
  have im: "index_map m ?x = (?x \<in> fst ` set m)"
    using Cons.prems(3) by (rule index_map_keys)
  show ?case
  proof (cases "?x \<in> fst ` set m")
    case False
    have "Contains_loop h m (nextN (h ! p)) = returns (fst ` set m \<subseteq> set ?xs)"
      using tl Cons.prems(2,3,4) by (rule Cons.IH)
    moreover have "(fst ` set m \<subseteq> set ?xs) = (fst ` set m \<subseteq> set (map (\<lambda>p. valueN (h ! p)) (p # ps)))"
      using subset_insert_notin [OF False, of "set ?xs"] by simp
    ultimately show ?thesis using r im False by (subst Contains_loop.simps) simp
  next
    case True
    let ?m = "AList.delete ?x m"
    have keys: "fst ` set ?m = fst ` set m - {?x}" by (rule keys_delete)
    show ?thesis
    proof (cases "?m = []")
      case True
      with keys have "fst ` set m \<subseteq> {?x}" by auto
      then have "fst ` set m \<subseteq> set (map (\<lambda>p. valueN (h ! p)) (p # ps))" by auto
      with True r im \<open>?x \<in> fst ` set m\<close> show ?thesis
        by (subst Contains_loop.simps) simp
    next
      case False
      have "Contains_loop h ?m (nextN (h ! p)) = returns (fst ` set ?m \<subseteq> set ?xs)"
        using tl distinct_delete [OF Cons.prems(2)] true_delete [OF Cons.prems(2,3)] False
        by (rule Cons.IH)
      moreover have "(fst ` set ?m \<subseteq> set ?xs) = (fst ` set m \<subseteq> set (map (\<lambda>p. valueN (h ! p)) (p # ps)))"
        unfolding keys using diff_subset_insert [of "fst ` set m" ?x "set ?xs"] by simp
      ultimately show ?thesis using r im False \<open>?x \<in> fst ` set m\<close>
        by (subst Contains_loop.simps) simp
    qed
  qed
qed

lemma holds_Contains:
  assumes h: "holds list ps xs"
  shows "Contains list vs = returns (vs = [] \<or> (length vs \<le> length xs \<and> set vs \<subseteq> set xs))"
proof (cases "vs = []")
  case True
  then show ?thesis by (simp add: Contains_def)
next
  case False
  note ne = False
  have sz: "sizeL list = int (length xs)" using holds_length [OF h] by simp
  show ?thesis
  proof (cases "length vs \<le> length xs")
    case False
    with ne sz show ?thesis by (simp add: Contains_def)
  next
    case True
    let ?m = "fold (\<lambda>v m. AList.update v True m) vs []"
    have k: "fst ` set ?m = set vs" using fold_update_keys [of vs "[]"] by simp
    with ne have "?m \<noteq> []" by auto
    moreover have "distinct (map fst ?m)" by (rule fold_update_distinct) simp
    moreover have "\<forall>k \<in> fst ` set ?m. map_of ?m k = Some True"
      by (rule fold_update_true) simp
    ultimately have "Contains_loop (store list) ?m (firstL list) =
        returns (fst ` set ?m \<subseteq> set (map (\<lambda>p. valueN (store list ! p)) ps))"
      using holds_seg [OF h] by (intro Contains_loop_seg)
    then have "Contains_loop (store list) ?m (firstL list) = returns (set vs \<subseteq> set xs)"
      using k holds_vals [OF h] by simp
    moreover have "sizeL list \<noteq> 0" using ne True sz by auto
    ultimately show ?thesis using ne True sz by (simp add: Contains_def)
  qed
qed


subsection \<open>The first position of a value\<close>

lemma takeWhile_first:
  "v \<in> set xs \<Longrightarrow>
   length (takeWhile (\<lambda>x. x \<noteq> v) xs) < length xs \<and>
   xs ! length (takeWhile (\<lambda>x. x \<noteq> v) xs) = v \<and>
   (\<forall>j < length (takeWhile (\<lambda>x. x \<noteq> v) xs). xs ! j \<noteq> v)"
proof (induction xs)
  case Nil
  then show ?case by simp
next
  case (Cons x xs)
  show ?case
  proof (cases "x = v")
    case True
    then show ?thesis by simp
  next
    case False
    with Cons.prems have "v \<in> set xs" by simp
    from Cons.IH [OF this] False show ?thesis
      by (auto simp: nth_Cons' less_Suc_eq_0_disj)
  qed
qed


subsection \<open>Set, Add, New, Clear\<close>

lemma storeValue_Some [simp]:
  "p < length h \<Longrightarrow> storeValue h (Some p) v = returns (h[p := (h ! p)\<lparr>valueN := v\<rparr>])"
  by (simp add: storeValue_def)

lemma storeNext_Some [simp]:
  "p < length h \<Longrightarrow> storeNext h (Some p) v = returns (h[p := (h ! p)\<lparr>nextN := v\<rparr>])"
  by (simp add: storeNext_def)

lemma vals_update_value:
  assumes "distinct ps" and "k < length ps" and "ps ! k < length h"
  shows "map (\<lambda>p. valueN (h[ps ! k := (h ! (ps ! k))\<lparr>valueN := v\<rparr>] ! p)) ps =
         (map (\<lambda>p. valueN (h ! p)) ps)[k := v]"
proof (rule nth_equalityI)
  show "length (map (\<lambda>p. valueN (h[ps ! k := (h ! (ps ! k))\<lparr>valueN := v\<rparr>] ! p)) ps) =
        length ((map (\<lambda>p. valueN (h ! p)) ps)[k := v])"
    by simp
next
  fix j assume "j < length (map (\<lambda>p. valueN (h[ps ! k := (h ! (ps ! k))\<lparr>valueN := v\<rparr>] ! p)) ps)"
  then have j: "j < length ps" by simp
  show "map (\<lambda>p. valueN (h[ps ! k := (h ! (ps ! k))\<lparr>valueN := v\<rparr>] ! p)) ps ! j =
        (map (\<lambda>p. valueN (h ! p)) ps)[k := v] ! j"
  proof (cases "j = k")
    case True
    with assms show ?thesis by simp
  next
    case False
    with assms j have "ps ! j \<noteq> ps ! k" by (simp add: nth_eq_iff_index_eq)
    with False j show ?thesis by simp
  qed
qed

lemma holds_Set:
  assumes h: "holds list ps xs" and i: "0 \<le> i" "i < int (length xs)"
  shows "\<exists>list'. Set list i v = returns (None, list') \<and> holds list' ps (xs[nat i := v])"
proof -
  let ?a = "ps ! nat i"
  let ?h = "(store list)[?a := (store list ! ?a)\<lparr>valueN := v\<rparr>]"
  have k: "nat i < length ps" "i < int (length ps)" using i holds_length [OF h] by simp_all
  then have a: "?a < length (store list)" using holds_bound [OF h] by simp
  have "inBounds list i" using i holds_length [OF h] by (simp add: inBounds_def)
  then have r: "Set list i v = returns (None, list\<lparr>store := ?h\<rparr>)"
    using holds_forward [OF h i(1) k(2)] a by (simp add: Set_def)
  have "seg ?h (firstL list) ps None"
    using holds_seg [OF h] by (simp only: seg_update_value)
  moreover have "map (\<lambda>p. valueN (?h ! p)) ps = xs[nat i := v]"
    using vals_update_value [OF holds_distinct [OF h] k(1) a] holds_vals [OF h] by simp
  ultimately have "holds (list\<lparr>store := ?h\<rparr>) ps (xs[nat i := v])"
    using holds_size [OF h] holds_last [OF h] by (intro holdsI) simp_all
  with r show ?thesis by blast
qed

lemma vals_store_append:
  "(\<And>p. p \<in> set ps \<Longrightarrow> p < length h) \<Longrightarrow>
   map (\<lambda>p. valueN ((h @ ns) ! p)) ps = map (\<lambda>p. valueN (h ! p)) ps"
  by (simp add: nth_append)

lemma holds_Add_body:
  assumes h: "holds list ps xs"
  shows "\<exists>list'. Add_body v list = returns list' \<and>
           holds list' (ps @ [length (store list)]) (xs @ [v])"
proof (cases ps rule: rev_cases)
  case Nil
  let ?n = "\<lparr>valueN = v, nextN = None\<rparr>"
  let ?l = "list\<lparr>store := store list @ [?n], firstL := Some (length (store list)),
                 lastL := Some (length (store list)), sizeL := sizeL list + 1\<rparr>"
  from Nil have "sizeL list = 0" "xs = []" using holds_size [OF h] holds_vals [OF h] by simp_all
  then have "Add_body v list = returns ?l" by (simp add: Add_body_def Let_def)
  moreover have "holds ?l (ps @ [length (store list)]) (xs @ [v])"
    using Nil \<open>sizeL list = 0\<close> \<open>xs = []\<close> by (intro holdsI) simp_all
  ultimately show ?thesis by blast
next
  case (snoc as t)
  let ?e = "length (store list)"
  let ?n = "\<lparr>valueN = v, nextN = None\<rparr>"
  let ?g = "store list @ [?n]"
  let ?h = "?g[t := (?g ! t)\<lparr>nextN := Some ?e\<rparr>]"
  let ?l = "list\<lparr>store := ?h, lastL := Some ?e, sizeL := sizeL list + 1\<rparr>"
  have s: "seg (store list) (firstL list) as (Some t)" and t: "t < ?e"
    and tn: "nextN (store list ! t) = None"
    using holds_seg [OF h] snoc by (simp_all add: seg_snoc)
  have d: "distinct ps" using holds_distinct [OF h] .
  have sz: "sizeL list \<noteq> 0" and lt: "lastL list = Some t"
    using holds_size [OF h] holds_last [OF h] snoc by simp_all
  have "storeNext ?g (Some t) (Some ?e) = returns ?h"
    using t by (intro storeNext_Some) simp
  then have r: "Add_body v list = returns ?l"
    using sz lt by (simp add: Add_body_def Let_def)
  have b: "\<And>p. p \<in> set ps \<Longrightarrow> p < ?e" using holds_bound [OF h] by blast
  have "seg ?h (firstL list) as (Some t)"
  proof (rule seg_cong [OF s])
    fix p assume p: "p \<in> set as"
    then have "p \<noteq> t" "p < ?e" using d b snoc by auto
    then show "p < length ?h \<and> nextN (?h ! p) = nextN (store list ! p)"
      by (simp add: nth_append)
  qed
  moreover have "seg ?h (Some t) [t, ?e] None" using t by simp
  ultimately have "seg ?h (firstL list) (as @ [t, ?e]) None"
    unfolding seg_append by blast
  then have sg: "seg ?h (firstL list) (ps @ [?e]) None"
    using snoc by simp
  have "map (\<lambda>p. valueN (?h ! p)) ps = map (\<lambda>p. valueN (?g ! p)) ps"
    by simp
  also have "\<dots> = xs" using vals_store_append [of ps "store list" "[?n]"] b holds_vals [OF h]
    by simp
  finally have "map (\<lambda>p. valueN (?h ! p)) (ps @ [?e]) = xs @ [v]"
    using t by simp
  then have "holds ?l (ps @ [?e]) (xs @ [v])"
    using sg holds_size [OF h] by (intro holdsI) simp_all
  with r show ?thesis by blast
qed

lemma holds_Add:
  "holds list ps xs \<Longrightarrow> \<exists>list' qs. Add list vs = returns list' \<and> holds list' (ps @ qs) (xs @ vs)"
proof (induction vs arbitrary: list ps xs)
  case Nil
  then have "Add list [] = returns list \<and> holds list (ps @ []) (xs @ [])" by simp
  then show ?case by blast
next
  case (Cons v vs)
  from holds_Add_body [OF Cons.prems, of v] obtain l1 where
    1: "Add_body v list = returns l1" "holds l1 (ps @ [length (store list)]) (xs @ [v])"
    by blast
  from Cons.IH [OF 1(2)] obtain l2 qs where
    2: "Add l1 vs = returns l2" "holds l2 ((ps @ [length (store list)]) @ qs) ((xs @ [v]) @ vs)"
    by blast
  from 1(1) 2(1) have "Add list (v # vs) = returns l2" by simp
  moreover from 2(2) have "holds l2 (ps @ (length (store list) # qs)) (xs @ v # vs)" by simp
  ultimately show ?case by blast
qed

lemma holds_empty: "holds \<lparr>store = h, firstL = None, lastL = None, sizeL = 0\<rparr> [] []"
  by (simp add: holds_def)

lemma holds_New: "\<exists>list qs. New vs = returns list \<and> holds list qs vs"
proof (cases vs)
  case Nil
  then have "New vs = returns \<lparr>store = [], firstL = None, lastL = None, sizeL = 0\<rparr>"
    by (simp add: New_def)
  with Nil holds_empty [of "[]"] show ?thesis by blast
next
  case (Cons a as)
  then have "New vs = Add \<lparr>store = [], firstL = None, lastL = None, sizeL = 0\<rparr> vs"
    by (simp add: New_def)
  with holds_Add [OF holds_empty, of "[]" vs] show ?thesis by simp
qed

lemma holds_Clear: "holds (Clear list) [] []"
  by (simp add: holds_def Clear_def)


subsection \<open>Prepend\<close>

lemma holds_Prepend_loop:
  "holds list ps xs \<Longrightarrow> i + 1 = int n \<Longrightarrow> n \<le> length vs \<Longrightarrow>
   \<exists>list' qs. Prepend_loop vs i list = returns list' \<and> holds list' (qs @ ps) (take n vs @ xs)"
proof (induction n arbitrary: i list ps xs)
  case 0
  then have "Prepend_loop vs i list = returns list"
    by (subst Prepend_loop.simps) simp
  with "0.prems"(1) have "Prepend_loop vs i list = returns list \<and> holds list ([] @ ps) (take 0 vs @ xs)"
    by simp
  then show ?case by blast
next
  case (Suc n)
  let ?e = "length (store list)"
  let ?h = "store list @ [\<lparr>valueN = vs ! n, nextN = firstL list\<rparr>]"
  let ?l = "list\<lparr>store := ?h, firstL := Some ?e,
                 lastL := (if sizeL list = 0 then Some ?e else lastL list),
                 sizeL := sizeL list + 1\<rparr>"
  have i: "i = int n" "nat i = n" "n < length vs" using Suc.prems by simp_all
  have step: "Prepend_loop vs i list = Prepend_loop vs (i - 1) ?l"
    using i by (subst Prepend_loop.simps) (simp add: Let_def)
  have b: "\<And>p. p \<in> set ps \<Longrightarrow> p < ?e" using holds_bound [OF Suc.prems(1)] by blast
  have "seg ?h (nextN (?h ! ?e)) ps None"
    using seg_store_append [OF holds_seg [OF Suc.prems(1)]] by simp
  then have sg: "seg ?h (Some ?e) (?e # ps) None" by simp
  have "map (\<lambda>p. valueN (?h ! p)) ps = xs"
    using vals_store_append [of ps "store list"] b holds_vals [OF Suc.prems(1)] by simp
  then have vl: "vs ! n # xs = map (\<lambda>p. valueN (?h ! p)) (?e # ps)" by simp
  have "sizeL list = 0 \<longleftrightarrow> ps = []" using holds_size [OF Suc.prems(1)] by simp
  then have "lastL ?l = Some (last (?e # ps))"
    using holds_last [OF Suc.prems(1)] by simp
  then have "holds ?l (?e # ps) (vs ! n # xs)"
    using sg vl holds_size [OF Suc.prems(1)] by (intro holdsI) simp_all
  from Suc.IH [OF this, of "i - 1"] i obtain l' qs where
    r: "Prepend_loop vs (i - 1) ?l = returns l'" "holds l' (qs @ ?e # ps) (take n vs @ vs ! n # xs)"
    by auto
  have "take (Suc n) vs = take n vs @ [vs ! n]" using i by (simp add: take_Suc_conv_app_nth)
  with r(2) have "holds l' ((qs @ [?e]) @ ps) (take (Suc n) vs @ xs)" by simp
  with step r(1) show ?case by metis
qed

lemma holds_Prepend:
  assumes "holds list ps xs"
  shows "\<exists>list' qs. Prepend list vs = returns list' \<and> holds list' (qs @ ps) (vs @ xs)"
  using holds_Prepend_loop [OF assms, of "int (length vs) - 1" "length vs" vs]
  by (simp add: Prepend_def)


subsection \<open>Remove\<close>

lemma holds_split:
  assumes h: "holds list ps xs" and k: "k < length ps"
  shows "seg (store list) (firstL list) (take k ps) (Some (ps ! k))"
    and "seg (store list) (nextN (store list ! (ps ! k))) (drop (Suc k) ps) None"
    and "ps ! k < length (store list)"
    and "ps = take k ps @ ps ! k # drop (Suc k) ps"
    and "xs = take k xs @ xs ! k # drop (Suc k) xs"
proof -
  show "seg (store list) (firstL list) (take k ps) (Some (ps ! k))"
    using holds_seg [OF h] k by (rule seg_take)
  have "seg (store list) (Some (ps ! k)) (drop k ps) None"
    using holds_seg [OF h] k by (rule seg_drop)
  then show "seg (store list) (nextN (store list ! (ps ! k))) (drop (Suc k) ps) None"
    using k by (simp add: Cons_nth_drop_Suc [symmetric])
  show "ps ! k < length (store list)" using holds_bound [OF h] k by simp
  show "ps = take k ps @ ps ! k # drop (Suc k) ps" using k by (rule id_take_nth_drop)
  have "k < length xs" using k holds_length [OF h] by simp
  then show "xs = take k xs @ xs ! k # drop (Suc k) xs" by (rule id_take_nth_drop)
qed

lemma holds_Remove:
  assumes h: "holds list ps xs" and i: "0 \<le> i" "i < int (length xs)"
  shows "\<exists>list'. Remove list i = returns (None, list') \<and>
           holds list' (take (nat i) ps @ drop (Suc (nat i)) ps)
                       (take (nat i) xs @ drop (Suc (nat i)) xs)"
proof -
  let ?k = "nat i"
  let ?h = "store list"
  define pre where "pre = take ?k ps"
  define p where "p = ps ! ?k"
  define post where "post = drop (Suc ?k) ps"
  have k: "?k < length ps" using i holds_length [OF h] by simp
  note sp = holds_split [OF h k, folded pre_def p_def post_def]
  have lp: "int (length pre) = i" using i k by (simp add: pre_def)
  have d: "distinct (pre @ p # post)" using holds_distinct [OF h] sp(4) by simp
  have ne: "\<not> IsEmpty list" "inBounds list i"
    using i holds_length [OF h] by (auto simp: IsEmpty_def inBounds_def)
  have fp: "forward_prev ?h 0 i None (firstL list) =
            returns (if pre = [] then None else Some (last pre), Some p)"
    using sp(1) by (rule forward_prev_seg) (use lp in simp)
  have lst: "lastL list = Some (last ps)" using holds_last [OF h] k by auto
  have lastp: "Some p = lastL list \<longleftrightarrow> post = []"
  proof (cases "post = []")
    case True
    with sp(4) have "last ps = p" by (metis last_snoc)
    with lst True show ?thesis by simp
  next
    case False
    then have "last ps = last post" by (metis sp(4) last_appendR last_ConsR list.distinct(1))
    moreover have "last post \<in> set post" using False by (rule last_in_set)
    ultimately have "last ps \<noteq> p" using d by auto
    with lst False show ?thesis by simp
  qed
  have vals: "xs = map (\<lambda>p. valueN (?h ! p)) ps" using holds_vals [OF h] .
  have xs': "map (\<lambda>p. valueN (?h ! p)) (pre @ post) = take ?k xs @ drop (Suc ?k) xs"
    unfolding vals pre_def post_def by (simp add: take_map drop_map)
  show ?thesis
  proof (cases "pre = []")
    case True
    let ?l = "list\<lparr>firstL := nextN (?h ! p),
                   lastL := (if post = [] then None else lastL list),
                   sizeL := sizeL list - 1\<rparr>"
    from True sp(1) have first: "firstL list = Some p" by simp
    have r: "Remove list i = returns (None, ?l)"
      using ne fp True first sp(3) lastp by (simp add: Remove_def)
    have "lastL ?l = (if pre @ post = [] then None else Some (last (pre @ post)))"
    proof (cases "post = []")
      case True
      with \<open>pre = []\<close> show ?thesis by simp
    next
      case False
      then have "last ps = last post" by (metis sp(4) last_appendR last_ConsR list.distinct(1))
      with False lst show ?thesis by simp
    qed
    moreover have "seg (store ?l) (firstL ?l) (pre @ post) None"
      using sp(2) True by simp
    moreover have "sizeL ?l = int (length (pre @ post))"
      using holds_size [OF h] arg_cong [OF sp(4), of length] by simp
    ultimately have "holds ?l (pre @ post) (take ?k xs @ drop (Suc ?k) xs)"
      using xs' by (intro holdsI) simp_all
    with r show ?thesis unfolding pre_def post_def by blast
  next
    case False
    then obtain as a where pre: "pre = as @ [a]" by (metis rev_exhaust)
    let ?h' = "?h[a := (?h ! a)\<lparr>nextN := nextN (?h ! p)\<rparr>]"
    let ?l = "list\<lparr>lastL := (if post = [] then Some a else lastL list),
                   store := ?h', sizeL := sizeL list - 1\<rparr>"
    have da: "a \<notin> set as" "a \<noteq> p" "a \<notin> set post" using d pre by auto
    have sa: "seg ?h (firstL list) as (Some a)" and a: "a < length ?h"
      using sp(1) pre by (simp_all add: seg_snoc)
    have "firstL list \<noteq> Some p"
    proof (cases as)
      case Nil
      with sa da show ?thesis by simp
    next
      case (Cons b bs)
      with sa have "firstL list = Some b" by simp
      moreover have "b \<noteq> p" using d pre Cons by auto
      ultimately show ?thesis by simp
    qed
    then have nf: "Some p \<noteq> firstL list" by metis
    have r: "Remove list i = returns (None, ?l)"
      using ne fp False pre nf lastp sp(3) a by (simp add: Remove_def)
    have "seg ?h' (firstL list) as (Some a)"
      using sa da(1) by (simp add: seg_update_notin)
    moreover have "seg ?h' (Some a) [a] (nextN (?h ! p))" using a by simp
    moreover have "seg ?h' (nextN (?h ! p)) post None"
      using sp(2) da(3) by (simp add: seg_update_notin)
    ultimately have "seg ?h' (firstL list) (as @ [a] @ post) None"
      unfolding seg_append by blast
    then have sg: "seg (store ?l) (firstL ?l) (pre @ post) None" using pre by simp
    have "lastL ?l = (if pre @ post = [] then None else Some (last (pre @ post)))"
    proof (cases "post = []")
      case True
      with pre show ?thesis by simp
    next
      case False
      then have "last ps = last post" by (metis sp(4) last_appendR last_ConsR list.distinct(1))
      with False lst show ?thesis by simp
    qed
    moreover have "sizeL ?l = int (length (pre @ post))"
      using holds_size [OF h] arg_cong [OF sp(4), of length] by simp
    moreover have "take ?k xs @ drop (Suc ?k) xs = map (\<lambda>p. valueN (store ?l ! p)) (pre @ post)"
      using xs' by simp
    ultimately have "holds ?l (pre @ post) (take ?k xs @ drop (Suc ?k) xs)"
      using sg by (intro holdsI)
    with r show ?thesis unfolding pre_def post_def by blast
  qed
qed


subsection \<open>Swap\<close>

lemma Swap_pick:
  assumes "node = None \<longrightarrow> n \<le> i \<and> nat (i - n) < Suc (length qs)"
    and "node \<noteq> None \<longrightarrow> i < n"
  shows "((if i = n then Some p else node) = None \<longrightarrow>
            n + 1 \<le> i \<and> nat (i - (n + 1)) < length qs)"
    and "((if i = n then Some p else node) \<noteq> None \<longrightarrow> i < n + 1)"
    and "(if (if i = n then Some p else node) = None then Some (qs ! nat (i - (n + 1)))
          else (if i = n then Some p else node)) =
         (if node = None then Some ((p # qs) ! nat (i - n)) else node)"
proof -
  show "((if i = n then Some p else node) = None \<longrightarrow>
            n + 1 \<le> i \<and> nat (i - (n + 1)) < length qs)"
    using assms by auto
  show "((if i = n then Some p else node) \<noteq> None \<longrightarrow> i < n + 1)"
    using assms by auto
  show "(if (if i = n then Some p else node) = None then Some (qs ! nat (i - (n + 1)))
          else (if i = n then Some p else node)) =
         (if node = None then Some ((p # qs) ! nat (i - n)) else node)"
  proof (cases "node = None")
    case False
    with assms show ?thesis by auto
  next
    case True
    show ?thesis
    proof (cases "i = n")
      case True
      with \<open>node = None\<close> show ?thesis by simp
    next
      case False
      with True assms have "n < i" by auto
      then have "nat (i - n) = Suc (nat (i - (n + 1)))" by simp
      with True False show ?thesis by simp
    qed
  qed
qed

lemma Swap_loop_seg:
  "seg h r qs None \<Longrightarrow>
   node1 = None \<longrightarrow> n \<le> i \<and> nat (i - n) < length qs \<Longrightarrow>
   node2 = None \<longrightarrow> n \<le> j \<and> nat (j - n) < length qs \<Longrightarrow>
   node1 \<noteq> None \<longrightarrow> i < n \<Longrightarrow> node2 \<noteq> None \<longrightarrow> j < n \<Longrightarrow>
   Swap_loop h i j n node1 node2 r =
     returns (if node1 = None then Some (qs ! nat (i - n)) else node1,
              if node2 = None then Some (qs ! nat (j - n)) else node2)"
proof (induction qs arbitrary: r n node1 node2)
  case Nil
  then show ?case by (subst Swap_loop.simps) simp
next
  case (Cons p qs)
  have r: "r = Some p" "p < length h" and tl: "seg h (nextN (h ! p)) qs None"
    using Cons.prems(1) by simp_all
  show ?case
  proof (cases "node1 = None \<or> node2 = None")
    case False
    then obtain a b where "node1 = Some a" "node2 = Some b" by auto
    with r show ?thesis by (subst Swap_loop.simps) simp
  next
    case True
    let ?n1 = "if i = n then Some p else node1"
    let ?n2 = "if j = n then Some p else node2"
    have a1: "node1 = None \<longrightarrow> n \<le> i \<and> nat (i - n) < Suc (length qs)"
      and a2: "node2 = None \<longrightarrow> n \<le> j \<and> nat (j - n) < Suc (length qs)"
      using Cons.prems(2,3) by simp_all
    note p1 = Swap_pick [OF a1 Cons.prems(4), of p]
    note p2 = Swap_pick [OF a2 Cons.prems(5), of p]
    have "Swap_loop h i j (n + 1) ?n1 ?n2 (nextN (h ! p)) =
          returns (if ?n1 = None then Some (qs ! nat (i - (n + 1))) else ?n1,
                   if ?n2 = None then Some (qs ! nat (j - (n + 1))) else ?n2)"
      using tl p1(1) p2(1) p1(2) p2(2) by (rule Cons.IH)
    then have "Swap_loop h i j (n + 1) ?n1 ?n2 (nextN (h ! p)) =
          returns (if node1 = None then Some ((p # qs) ! nat (i - n)) else node1,
                   if node2 = None then Some ((p # qs) ! nat (j - n)) else node2)"
      unfolding p1(3) p2(3) .
    moreover have "Swap_loop h i j n node1 node2 r = Swap_loop h i j (n + 1) ?n1 ?n2 (nextN (h ! p))"
      using True r by (subst Swap_loop.simps) (simp add: Let_def)
    ultimately show ?thesis by simp
  qed
qed

lemma holds_Swap:
  assumes h: "holds list ps xs" and i: "0 \<le> i" "i < int (length xs)"
    and j: "0 \<le> j" "j < int (length xs)"
  shows "\<exists>list'. Swap list i j = returns (None, list') \<and>
           holds list' ps (xs[nat i := xs ! nat j, nat j := xs ! nat i])"
proof (cases "i = j")
  case True
  have "inBounds list i" using i holds_length [OF h] by (simp add: inBounds_def)
  with True have "Swap list i j = returns (None, list)" by (simp add: Swap_def)
  moreover have "xs[nat i := xs ! nat j, nat j := xs ! nat i] = xs" using True by simp
  ultimately show ?thesis using h by simp
next
  case False
  let ?h = "store list"
  define a where "a = ps ! nat i"
  define b where "b = ps ! nat j"
  let ?g = "?h[a := (?h ! a)\<lparr>valueN := valueN (?h ! b)\<rparr>]"
  let ?f = "?g[b := (?g ! b)\<lparr>valueN := valueN (?h ! a)\<rparr>]"
  have len: "length xs = length ps" using holds_length [OF h] by simp
  have ki: "nat i < length ps" and kj: "nat j < length ps" using i j len by simp_all
  have ab: "a < length ?h" "b < length ?h"
    using holds_bound [OF h] ki kj by (simp_all add: a_def b_def)
  have bounds: "inBounds list i" "inBounds list j"
    using i j holds_length [OF h] by (simp_all add: inBounds_def)
  have lp: "Swap_loop ?h i j 0 None None (firstL list) = returns (Some a, Some b)"
    using Swap_loop_seg [OF holds_seg [OF h], of None 0 i None j] i j len
    by (simp add: a_def b_def)
  have r: "Swap list i j = returns (None, list\<lparr>store := ?f\<rparr>)"
    using False bounds lp ab by (simp add: Swap_def)
  have d: "distinct ps" using holds_distinct [OF h] .
  have xi: "xs ! nat i = valueN (?h ! a)" and xj: "xs ! nat j = valueN (?h ! b)"
    using holds_vals [OF h] ki kj by (simp_all add: a_def b_def)
  have v1: "map (\<lambda>p. valueN (?g ! p)) ps = xs[nat i := xs ! nat j]"
    using vals_update_value [OF d ki, of ?h "valueN (?h ! b)"] ab holds_vals [OF h] xj
    by (simp add: a_def)
  have "map (\<lambda>p. valueN (?f ! p)) ps = (map (\<lambda>p. valueN (?g ! p)) ps)[nat j := valueN (?h ! a)]"
    using vals_update_value [OF d kj, of ?g "valueN (?h ! a)"] ab by (simp add: b_def)
  with v1 xi have v2: "map (\<lambda>p. valueN (?f ! p)) ps = xs[nat i := xs ! nat j, nat j := xs ! nat i]"
    by simp
  have "seg ?f (firstL list) ps None"
    using holds_seg [OF h] by (simp only: seg_update_value)
  then have "holds (list\<lparr>store := ?f\<rparr>) ps (xs[nat i := xs ! nat j, nat j := xs ! nat i])"
    using v2 holds_size [OF h] holds_last [OF h] by (intro holdsI) simp_all
  with r show ?thesis by blast
qed


subsection \<open>Insert\<close>

lemma Insert_loop_spec:
  "a < length h \<Longrightarrow>
   \<exists>h' e. Insert_loop vs h (Some a) = returns (h', Some e) \<and>
     e = last (a # [length h ..< length h + length vs]) \<and>
     length h' = length h + length vs \<and>
     (\<forall>p < length h. p \<noteq> a \<longrightarrow> h' ! p = h ! p) \<and>
     valueN (h' ! a) = valueN (h ! a) \<and>
     seg h' (Some a) (butlast (a # [length h ..< length h + length vs])) (Some e) \<and>
     map (\<lambda>p. valueN (h' ! p)) [length h ..< length h + length vs] = vs"
proof (induction vs arbitrary: h a)
  case Nil
  have "Insert_loop [] h (Some a) = returns (h, Some a)" by simp
  moreover have "seg h (Some a) (butlast (a # [length h ..< length h + length ([]::'a list)])) (Some a)"
    by simp
  ultimately show ?case by simp
next
  case (Cons v vs)
  define m where "m = length h"
  define g where "g = (h @ [\<lparr>valueN = v, nextN = None\<rparr>])
                        [a := ((h @ [\<lparr>valueN = v, nextN = None\<rparr>]) ! a)\<lparr>nextN := Some m\<rparr>]"
  have am: "a < m" using Cons.prems by (simp add: m_def)
  have lg: "length g = Suc m" by (simp add: g_def m_def)
  have ga: "nextN (g ! a) = Some m" "valueN (g ! a) = valueN (h ! a)"
    using am by (simp_all add: g_def m_def nth_append)
  have gm: "valueN (g ! m) = v" using am by (simp add: g_def m_def)
  have gp: "\<And>p. p < m \<Longrightarrow> p \<noteq> a \<Longrightarrow> g ! p = h ! p"
    by (simp add: g_def m_def nth_append)
  have st: "storeNext (h @ [\<lparr>valueN = v, nextN = None\<rparr>]) (Some a) (Some m) = returns g"
    using am unfolding g_def m_def by (intro storeNext_Some) simp
  have "m < length g" using lg by simp
  from Cons.IH [OF this] obtain h' e where
    run: "Insert_loop vs g (Some m) = returns (h', Some e)"
    and e: "e = last (m # [length g ..< length g + length vs])"
    and len: "length h' = length g + length vs"
    and old: "\<forall>p < length g. p \<noteq> m \<longrightarrow> h' ! p = g ! p"
    and vm: "valueN (h' ! m) = valueN (g ! m)"
    and sg: "seg h' (Some m) (butlast (m # [length g ..< length g + length vs])) (Some e)"
    and vl: "map (\<lambda>p. valueN (h' ! p)) [length g ..< length g + length vs] = vs"
    by blast
  have news: "[m ..< m + length (v # vs)] = m # [Suc m ..< Suc m + length vs]"
    by (simp add: upt_rec)
  have ha: "h' ! a = g ! a" using old am lg by simp
  have 1: "Insert_loop (v # vs) h (Some a) = returns (h', Some e)"
    using run st by (simp add: Let_def m_def)
  have 2: "e = last (a # [m ..< m + length (v # vs)])"
    using e unfolding news lg by simp
  have 3: "length h' = m + length (v # vs)" using len lg by simp
  have 4: "\<forall>p < m. p \<noteq> a \<longrightarrow> h' ! p = h ! p"
  proof (intro allI impI)
    fix p assume p: "p < m" "p \<noteq> a"
    then have "h' ! p = g ! p" using old lg by simp
    with p gp show "h' ! p = h ! p" by simp
  qed
  have 5: "valueN (h' ! a) = valueN (h ! a)" using ha ga by simp
  have "nextN (h' ! a) = Some m" using ha ga by simp
  moreover have "a < length h'" using len lg am by simp
  ultimately have 6: "seg h' (Some a) (butlast (a # [m ..< m + length (v # vs)])) (Some e)"
    using sg unfolding news lg by simp
  have "valueN (h' ! m) = v" using vm gm by simp
  then have 7: "map (\<lambda>p. valueN (h' ! p)) [m ..< m + length (v # vs)] = v # vs"
    using vl unfolding news lg by simp
  show ?case
    unfolding m_def [symmetric]
    by (intro exI [of _ h'] exI [of _ e] conjI) (rule 1 2 3 4 5 6 7)+
qed


lemma last_notin_butlast: "xs \<noteq> [] \<Longrightarrow> distinct xs \<Longrightarrow> last xs \<notin> set (butlast xs)"
proof -
  assume "xs \<noteq> []" and d: "distinct xs"
  then have "xs = butlast xs @ [last xs]" by simp
  with d have "distinct (butlast xs @ [last xs])" by simp
  then show ?thesis by simp
qed

lemma holds_Insert_middle:
  assumes h: "holds list ps xs" and i: "0 < i" "i < int (length xs)"
  shows "\<exists>list' ps'. Insert list i vs = returns (None, list') \<and>
           holds list' ps' (take (nat i) xs @ vs @ drop (nat i) xs)"
proof -
  define H where "H = store list"
  define k where "k = nat i"
  define pre where "pre = take k ps"
  define post where "post = drop k ps"
  define news where "news = [length H ..< length H + length vs]"
  have len: "length xs = length ps" using holds_length [OF h] by simp
  have k: "0 < k" "k < length ps" using i len by (simp_all add: k_def)
  have ps: "ps = pre @ post" by (simp add: pre_def post_def)
  have lpre: "int (length pre) = i" using i k by (simp add: pre_def k_def)
  have "pre \<noteq> []" using k by (auto simp: pre_def)
  then obtain as a where pre: "pre = as @ [a]" by (metis rev_exhaust)
  have "post \<noteq> []" using k by (auto simp: post_def)
  then obtain p post' where post: "post = p # post'" by (metis list.exhaust)
  have d: "distinct (as @ [a] @ p # post')" using holds_distinct [OF h] ps pre post by simp
  have sg: "seg H (firstL list) (as @ [a] @ p # post') None"
    using holds_seg [OF h] ps pre post by (simp add: H_def)
  then obtain m where "seg H (firstL list) (as @ [a]) m" "seg H m (p # post') None"
    unfolding append_assoc [symmetric] seg_append by blast
  then have s1: "seg H (firstL list) (as @ [a]) (Some p)" and s3: "seg H (Some p) (p # post') None"
    by simp_all
  from s1 have s0: "seg H (firstL list) as (Some a)" and a: "a < length H"
    and na: "nextN (H ! a) = Some p"
    by (simp_all add: seg_snoc)
  have bnd: "\<And>q. q \<in> set ps \<Longrightarrow> q < length H" using holds_bound [OF h] by (simp add: H_def)
  have fp: "forward_prev H 0 i None (firstL list) = returns (Some a, Some p)"
    using forward_prev_seg [OF s1, of i 0 None] lpre pre by simp
  from Insert_loop_spec [OF a, of vs] obtain h' e where
    run: "Insert_loop vs H (Some a) = returns (h', Some e)"
    and e: "e = last (a # news)"
    and lh: "length h' = length H + length vs"
    and old: "\<forall>q < length H. q \<noteq> a \<longrightarrow> h' ! q = H ! q"
    and va: "valueN (h' ! a) = valueN (H ! a)"
    and sn: "seg h' (Some a) (butlast (a # news)) (Some e)"
    and vn: "map (\<lambda>q. valueN (h' ! q)) news = vs"
    unfolding news_def by blast
  define h'' where "h'' = h'[e := (h' ! e)\<lparr>nextN := Some p\<rparr>]"
  have "e \<in> set (a # news)" unfolding e by (rule last_in_set) simp
  then have e_cases: "e = a \<or> (length H \<le> e \<and> e < length H + length vs)"
    by (auto simp: news_def)
  then have el: "e < length h'" using a lh by auto
  have dn: "distinct (a # news)" using a by (auto simp: news_def)
  have enb: "e \<notin> set (butlast (a # news))"
    unfolding e using dn by (intro last_notin_butlast) simp_all
  have keep: "\<And>q. q < length H \<Longrightarrow> q \<noteq> a \<Longrightarrow> h'' ! q = H ! q"
  proof -
    fix q assume q: "q < length H" "q \<noteq> a"
    with e_cases have "q \<noteq> e" by auto
    then have "h'' ! q = h' ! q" by (simp add: h''_def)
    with q old show "h'' ! q = H ! q" by simp
  qed
  have lh'': "length h'' = length H + length vs" using lh by (simp add: h''_def)
  have val'': "\<And>q. valueN (h'' ! q) = valueN (h' ! q)" by (simp add: h''_def)
  have valH: "\<And>q. q < length H \<Longrightarrow> valueN (h'' ! q) = valueN (H ! q)"
  proof -
    fix q assume q: "q < length H"
    show "valueN (h'' ! q) = valueN (H ! q)"
    proof (cases "q = a")
      case True
      with va val'' show ?thesis by simp
    next
      case False
      with q keep show ?thesis by simp
    qed
  qed
  have r: "Insert list i vs = returns (None, list\<lparr>sizeL := sizeL list + int (length vs), store := h''\<rparr>)"
  proof -
    have "inBounds list i" using i holds_length [OF h] by (simp add: inBounds_def)
    moreover have "storeNext h' (Some e) (Some p) = returns h''"
      unfolding h''_def using el by (rule storeNext_Some)
    ultimately show ?thesis
      using i fp run a na by (simp add: Insert_def Let_def H_def [symmetric])
  qed
  have c1: "seg h'' (firstL list) as (Some a)"
  proof (rule seg_cong [OF s0])
    fix q assume q: "q \<in> set as"
    then have "q < length H" "q \<noteq> a" using bnd ps pre d by auto
    then show "q < length h'' \<and> nextN (h'' ! q) = nextN (H ! q)"
      using keep lh'' by simp
  qed
  have "seg h'' (Some a) (butlast (a # news)) (Some e)"
    using sn enb by (simp add: h''_def seg_update_notin)
  moreover have "seg h'' (Some e) [e] (Some p)" using el by (simp add: h''_def)
  ultimately have "seg h'' (Some a) (butlast (a # news) @ [e]) (Some p)"
    unfolding seg_append by blast
  moreover have "butlast (a # news) @ [e] = a # news"
    unfolding e by (rule append_butlast_last_id) simp
  ultimately have c2: "seg h'' (Some a) (a # news) (Some p)" by simp
  have c3: "seg h'' (Some p) (p # post') None"
  proof (rule seg_cong [OF s3])
    fix q assume q: "q \<in> set (p # post')"
    then have "q < length H" "q \<noteq> a" using bnd ps post d by auto
    then show "q < length h'' \<and> nextN (h'' ! q) = nextN (H ! q)"
      using keep lh'' by simp
  qed
  have chain: "seg h'' (firstL list) (as @ (a # news) @ p # post') None"
    unfolding seg_append using c1 c2 c3 by blast
  have xs: "xs = map (\<lambda>q. valueN (H ! q)) ps" using holds_vals [OF h] by (simp add: H_def)
  have v1: "map (\<lambda>q. valueN (h'' ! q)) pre = take k xs"
  proof -
    have "map (\<lambda>q. valueN (h'' ! q)) pre = map (\<lambda>q. valueN (H ! q)) pre"
      using bnd ps valH by simp
    then show ?thesis unfolding xs by (simp add: pre_def take_map)
  qed
  have v3: "map (\<lambda>q. valueN (h'' ! q)) post = drop k xs"
  proof -
    have "map (\<lambda>q. valueN (h'' ! q)) post = map (\<lambda>q. valueN (H ! q)) post"
      using bnd ps valH by simp
    then show ?thesis unfolding xs by (simp add: post_def drop_map)
  qed
  have v2: "map (\<lambda>q. valueN (h'' ! q)) news = vs" using vn val'' by simp
  have vals: "take k xs @ vs @ drop k xs = map (\<lambda>q. valueN (h'' ! q)) (pre @ news @ post)"
    using v1 v2 v3 by simp
  have eq: "as @ (a # news) @ p # post' = pre @ news @ post" using pre post by simp
  have sz: "sizeL list + int (length vs) = int (length (pre @ news @ post))"
    using holds_size [OF h] ps by (simp add: news_def)
  have "lastL list = Some (last ps)" using holds_last [OF h] k by auto
  then have lst: "lastL list = Some (last (pre @ news @ post))"
    using ps \<open>post \<noteq> []\<close> by simp
  have "holds (list\<lparr>sizeL := sizeL list + int (length vs), store := h''\<rparr>) (pre @ news @ post)
          (take k xs @ vs @ drop k xs)"
    using chain vals sz lst \<open>post \<noteq> []\<close> unfolding eq by (intro holdsI) simp_all
  with r show ?thesis unfolding k_def by blast
qed


subsection \<open>Error returns, and calls in sequence\<close>

lemma Get_out_of_bounds:
  "\<not> (0 \<le> i \<and> i < sizeL list) \<Longrightarrow> Get list i = returns (0, Some ErrIndexOutOfBounds)"
  by (simp add: Get_def inBounds_def)

lemma Set_out_of_bounds:
  "\<not> (0 \<le> i \<and> i < sizeL list) \<Longrightarrow> Set list i v = returns (Some ErrIndexOutOfBounds, list)"
  by (simp add: Set_def inBounds_def)

lemma Swap_out_of_bounds:
  "\<not> (0 \<le> i \<and> i < sizeL list) \<or> \<not> (0 \<le> j \<and> j < sizeL list) \<Longrightarrow>
   Swap list i j = returns (Some ErrIndexOutOfBounds, list)"
  by (simp add: Swap_def inBounds_def)

lemma Remove_empty: "sizeL list = 0 \<Longrightarrow> Remove list i = returns (Some ErrEmptyList, list)"
  by (simp add: Remove_def IsEmpty_def)

lemma Remove_out_of_bounds:
  "sizeL list \<noteq> 0 \<Longrightarrow> \<not> (0 \<le> i \<and> i < sizeL list) \<Longrightarrow>
   Remove list i = returns (Some ErrIndexOutOfBounds, list)"
  by (simp add: Remove_def IsEmpty_def inBounds_def)

lemma Insert_out_of_bounds:
  "\<not> (0 \<le> i \<and> i < sizeL list) \<Longrightarrow> i \<noteq> sizeL list \<Longrightarrow>
   Insert list i vs = returns (Some ErrIndexOutOfBounds, list)"
  by (simp add: Insert_def inBounds_def)

lemma holds_invariant: "holds list ps xs \<Longrightarrow> invariant list"
  using invariant_iff by blast

lemma holds_Insert:
  assumes h: "holds list ps xs" and i: "0 \<le> i" "i \<le> int (length xs)"
  shows "\<exists>list' ps'. Insert list i vs = returns (None, list') \<and>
           holds list' ps' (take (nat i) xs @ vs @ drop (nat i) xs)"
proof -
  have sz: "sizeL list = int (length xs)" using holds_length [OF h] by simp
  consider "i = int (length xs)" | "i = 0" "0 < length xs" | "0 < i" "i < int (length xs)"
    using i by linarith
  then show ?thesis
  proof cases
    case 1
    from holds_Add [OF h, of vs] obtain l' qs where
      a: "Add list vs = returns l'" "holds l' (ps @ qs) (xs @ vs)" by blast
    from 1 sz have "Insert list i vs = returns (None, l')"
      using a(1) by (simp add: Insert_def inBounds_def Append_def)
    moreover from 1 have "take (nat i) xs @ vs @ drop (nat i) xs = xs @ vs" by simp
    ultimately show ?thesis using a(2) by metis
  next
    case 2
    from holds_Prepend [OF h, of vs] obtain l' qs where
      a: "Prepend list vs = returns l'" "holds l' (qs @ ps) (vs @ xs)" by blast
    from 2 sz have "Insert list i vs = returns (None, l')"
      using a(1) by (simp add: Insert_def inBounds_def)
    moreover from 2 have "take (nat i) xs @ vs @ drop (nat i) xs = vs @ xs" by simp
    ultimately show ?thesis using a(2) by metis
  next
    case 3
    then show ?thesis using holds_Insert_middle [OF h] by blast
  qed
qed

lemma exec_holds:
  assumes h: "holds list ps xs"
  shows "\<exists>r list' ps' xs'. exec c list = returns (r, list') \<and> holds list' ps' xs'"
proof (cases c)
  case (CallAdd vs)
  with holds_Add [OF h, of vs] show ?thesis by fastforce
next
  case (CallAppend vs)
  with holds_Add [OF h, of vs] show ?thesis by (fastforce simp: Append_def)
next
  case (CallPrepend vs)
  with holds_Prepend [OF h, of vs] show ?thesis by fastforce
next
  case CallClear
  with holds_Clear [of list] show ?thesis by fastforce
next
  case (CallRemove i)
  have sz: "sizeL list = int (length xs)" using holds_length [OF h] by simp
  consider "sizeL list = 0" | "sizeL list \<noteq> 0" "\<not> (0 \<le> i \<and> i < sizeL list)"
    | "0 \<le> i" "i < int (length xs)" using sz by linarith
  then show ?thesis
  proof cases
    case 1
    with CallRemove h show ?thesis using Remove_empty [of list i] by fastforce
  next
    case 2
    with CallRemove h show ?thesis using Remove_out_of_bounds [of list i] by fastforce
  next
    case 3
    with CallRemove show ?thesis using holds_Remove [OF h, of i] by fastforce
  qed
next
  case (CallSwap i j)
  show ?thesis
  proof (cases "0 \<le> i \<and> i < int (length xs) \<and> 0 \<le> j \<and> j < int (length xs)")
    case True
    with CallSwap show ?thesis using holds_Swap [OF h, of i j] by fastforce
  next
    case False
    then have "Swap list i j = returns (Some ErrIndexOutOfBounds, list)"
      using holds_length [OF h] by (intro Swap_out_of_bounds) auto
    with CallSwap h show ?thesis by fastforce
  qed
next
  case (CallInsert i vs)
  show ?thesis
  proof (cases "0 \<le> i \<and> i \<le> int (length xs)")
    case True
    with CallInsert show ?thesis using holds_Insert [OF h, of i vs] by fastforce
  next
    case False
    then have "Insert list i vs = returns (Some ErrIndexOutOfBounds, list)"
      using holds_length [OF h] by (intro Insert_out_of_bounds) auto
    with CallInsert h show ?thesis by fastforce
  qed
next
  case (CallSet i v)
  show ?thesis
  proof (cases "0 \<le> i \<and> i < int (length xs)")
    case True
    with CallSet show ?thesis using holds_Set [OF h, of i v] by fastforce
  next
    case False
    then have "Set list i v = returns (Some ErrIndexOutOfBounds, list)"
      using holds_length [OF h] by (intro Set_out_of_bounds) auto
    with CallSet h show ?thesis by fastforce
  qed
next
  case CallSize
  with h show ?thesis by fastforce
next
  case CallIsEmpty
  with h show ?thesis by fastforce
next
  case CallFirst
  with h holds_First [OF h] show ?thesis by fastforce
next
  case CallLast
  with h holds_Last [OF h] show ?thesis by fastforce
next
  case (CallGet i)
  with h holds_Get [OF h, of i] show ?thesis by fastforce
next
  case CallValues
  with h holds_Values [OF h] show ?thesis by fastforce
next
  case (CallIndexOf v)
  with h holds_IndexOf [OF h, of v] show ?thesis by fastforce
next
  case (CallContains vs)
  with h holds_Contains [OF h, of vs] show ?thesis by fastforce
qed

lemma exec_query_returns:
  assumes h: "holds list ps xs" and q: "is_query c"
  shows "\<exists>r. exec c list = returns (r, list)"
proof (cases c)
  case CallSize
  then show ?thesis by simp
next
  case CallIsEmpty
  then show ?thesis by simp
next
  case CallFirst
  with holds_First [OF h] show ?thesis by simp
next
  case CallLast
  with holds_Last [OF h] show ?thesis by simp
next
  case (CallGet i)
  with holds_Get [OF h, of i] show ?thesis by simp
next
  case CallValues
  with holds_Values [OF h] show ?thesis by simp
next
  case (CallIndexOf v)
  with holds_IndexOf [OF h, of v] show ?thesis by simp
next
  case (CallContains vs)
  with holds_Contains [OF h, of vs] show ?thesis by simp
qed (use q in simp_all)

lemma exec_query_same:
  assumes "is_query c" and "exec c list = returns (r, list')"
  shows "list' = list"
  using assms by (cases c) (auto simp: seq_eq_returns)

lemma run_calls_holds:
  "holds list ps xs \<Longrightarrow> \<exists>list' ps' xs'. run_calls list cs = returns list' \<and> holds list' ps' xs'"
proof (induction cs arbitrary: list ps xs)
  case Nil
  then show ?case by auto
next
  case (Cons c cs)
  from exec_holds [OF Cons.prems, of c] obtain r l1 ps1 xs1 where
    1: "exec c list = returns (r, l1)" "holds l1 ps1 xs1" by blast
  from Cons.IH [OF 1(2)] obtain l2 ps2 xs2 where
    2: "run_calls l1 cs = returns l2" "holds l2 ps2 xs2" by blast
  from 1(1) 2(1) have "run_calls list (c # cs) = returns l2" by simp
  with 2(2) show ?case by blast
qed


lemma Remove_error_unchanged: "Remove list i = returns (Some e, list') \<Longrightarrow> list' = list"
  by (auto simp: Remove_def seq_eq_returns split: if_splits prod.splits)

lemma Swap_error_unchanged: "Swap list i j = returns (Some e, list') \<Longrightarrow> list' = list"
  by (auto simp: Swap_def seq_eq_returns split: if_splits prod.splits)

lemma Insert_error_unchanged: "Insert list i vs = returns (Some e, list') \<Longrightarrow> list' = list"
  by (auto simp: Insert_def Let_def seq_eq_returns split: if_splits prod.splits)

lemma Set_error_unchanged: "Set list i v = returns (Some e, list') \<Longrightarrow> list' = list"
  by (auto simp: Set_def seq_eq_returns split: if_splits prod.splits)

lemma holds_observe:
  "holds list ps xs \<Longrightarrow> invariant list \<and> Values list = returns xs \<and> Size list = int (length xs)"
  using holds_invariant [of list ps xs] holds_Values [of list ps xs] holds_length [of list ps xs]
  by (simp add: Size_def)


lemma holds_tail:
  assumes h: "holds list ps xs" and ne: "xs \<noteq> []"
  shows "\<exists>t. lastL list = Some t \<and> t < length (store list) \<and>
             valueN (store list ! t) = last xs \<and> nextN (store list ! t) = None"
proof -
  have xs: "xs = map (\<lambda>p. valueN (store list ! p)) ps" using holds_vals [OF h] .
  with ne have "ps \<noteq> []" by auto
  then obtain as t where ps: "ps = as @ [t]" by (metis rev_exhaust)
  have "lastL list = Some t" using holds_last [OF h] ps by simp
  moreover have "t < length (store list)" "nextN (store list ! t) = None"
    using holds_seg [OF h] ps by (simp_all add: seg_snoc)
  moreover have "valueN (store list ! t) = last xs" unfolding xs ps by simp
  ultimately show ?thesis by blast
qed

lemma Prepend_nothing: "Prepend list [] = returns list"
  by (simp add: Prepend_def Prepend_loop.simps)


section \<open>The query methods as transitions\<close>

subsection \<open>Each loop hands back the list it was given, with the result of the walk\<close>

lemma seq_assoc: "seq (seq m f) g = seq m (\<lambda>x. seq (f x) g)"
  by (simp add: seq_def split: option.splits sum.splits)

lemma Get_call_loop_forward:
  assumes "Get_call_loop list i index node = Some y"
  shows "seq (forward (store list) i index node) (\<lambda>r. returns (r, list)) = Some y"
  using assms
  by (rule Get_call_loop.raw_induct
        [where P = "\<lambda>list i index node y.
           seq (forward (store list) i index node) (\<lambda>r. returns (r, list)) = Some y", rotated])
     (subst forward.simps, auto split: if_splits option.splits)

lemma forward_Get_call_loop:
  assumes "forward h i index node = Some z"
  shows "h = store list \<longrightarrow>
         Get_call_loop list i index node = seq (Some z) (\<lambda>r. returns (r, list))"
  using assms
  by (rule forward.raw_induct
        [where P = "\<lambda>h i index node z. h = store list \<longrightarrow>
           Get_call_loop list i index node = seq (Some z) (\<lambda>r. returns (r, list))", rotated])
     (subst Get_call_loop.simps, auto split: if_splits option.splits)

lemma Get_call_loop_eq:
  "Get_call_loop list i index node =
   seq (forward (store list) i index node) (\<lambda>r. returns (r, list))"
proof (cases "Get_call_loop list i index node")
  case (Some y)
  then show ?thesis using Get_call_loop_forward by metis
next
  case None
  have "forward (store list) i index node = None"
  proof (rule ccontr)
    assume "forward (store list) i index node \<noteq> None"
    then obtain z where "forward (store list) i index node = Some z" by blast
    from forward_Get_call_loop [OF this, of list] None show False
      by (simp add: seq_def split: sum.splits)
  qed
  with None show ?thesis by simp
qed

lemma Values_call_loop_Values_loop:
  assumes "Values_call_loop list i node vals = Some y"
  shows "seq (Values_loop (store list) i node vals) (\<lambda>r. returns (r, list)) = Some y"
  using assms
  by (rule Values_call_loop.raw_induct
        [where P = "\<lambda>list i node vals y.
           seq (Values_loop (store list) i node vals) (\<lambda>r. returns (r, list)) = Some y", rotated])
     (subst Values_loop.simps, auto simp: Let_def split: if_splits option.splits)

lemma Values_loop_Values_call_loop:
  assumes "Values_loop h i node vals = Some z"
  shows "h = store list \<longrightarrow>
         Values_call_loop list i node vals = seq (Some z) (\<lambda>r. returns (r, list))"
  using assms
  by (rule Values_loop.raw_induct
        [where P = "\<lambda>h i node vals z. h = store list \<longrightarrow>
           Values_call_loop list i node vals = seq (Some z) (\<lambda>r. returns (r, list))", rotated])
     (subst Values_call_loop.simps, auto simp: Let_def split: if_splits option.splits)

lemma Values_call_loop_eq:
  "Values_call_loop list i node vals =
   seq (Values_loop (store list) i node vals) (\<lambda>r. returns (r, list))"
proof (cases "Values_call_loop list i node vals")
  case (Some y)
  then show ?thesis using Values_call_loop_Values_loop by metis
next
  case None
  have "Values_loop (store list) i node vals = None"
  proof (rule ccontr)
    assume "Values_loop (store list) i node vals \<noteq> None"
    then obtain z where "Values_loop (store list) i node vals = Some z" by blast
    from Values_loop_Values_call_loop [OF this, of list] None show False
      by (simp add: seq_def split: sum.splits)
  qed
  with None show ?thesis by simp
qed

lemma IndexOf_call_loop_IndexOf_loop:
  assumes "IndexOf_call_loop list v index node = Some y"
  shows "seq (IndexOf_loop (store list) v index node) (\<lambda>r. returns (r, list)) = Some y"
  using assms
  by (rule IndexOf_call_loop.raw_induct
        [where P = "\<lambda>list v index node y.
           seq (IndexOf_loop (store list) v index node) (\<lambda>r. returns (r, list)) = Some y", rotated])
     (subst IndexOf_loop.simps, auto simp: Let_def split: if_splits option.splits)

lemma IndexOf_loop_IndexOf_call_loop:
  assumes "IndexOf_loop h v index node = Some z"
  shows "h = store list \<longrightarrow>
         IndexOf_call_loop list v index node = seq (Some z) (\<lambda>r. returns (r, list))"
  using assms
  by (rule IndexOf_loop.raw_induct
        [where P = "\<lambda>h v index node z. h = store list \<longrightarrow>
           IndexOf_call_loop list v index node = seq (Some z) (\<lambda>r. returns (r, list))", rotated])
     (subst IndexOf_call_loop.simps, auto simp: Let_def split: if_splits option.splits)

lemma IndexOf_call_loop_eq:
  "IndexOf_call_loop list v index node =
   seq (IndexOf_loop (store list) v index node) (\<lambda>r. returns (r, list))"
proof (cases "IndexOf_call_loop list v index node")
  case (Some y)
  then show ?thesis using IndexOf_call_loop_IndexOf_loop by metis
next
  case None
  have "IndexOf_loop (store list) v index node = None"
  proof (rule ccontr)
    assume "IndexOf_loop (store list) v index node \<noteq> None"
    then obtain z where "IndexOf_loop (store list) v index node = Some z" by blast
    from IndexOf_loop_IndexOf_call_loop [OF this, of list] None show False
      by (simp add: seq_def split: sum.splits)
  qed
  with None show ?thesis by simp
qed

lemma Contains_call_loop_Contains_loop:
  assumes "Contains_call_loop list m node = Some y"
  shows "seq (Contains_loop (store list) m node) (\<lambda>r. returns (r, list)) = Some y"
  using assms
  by (rule Contains_call_loop.raw_induct
        [where P = "\<lambda>list m node y.
           seq (Contains_loop (store list) m node) (\<lambda>r. returns (r, list)) = Some y", rotated])
     (subst Contains_loop.simps, auto simp: Let_def split: if_splits option.splits)

lemma Contains_loop_Contains_call_loop:
  assumes "Contains_loop h m node = Some z"
  shows "h = store list \<longrightarrow>
         Contains_call_loop list m node = seq (Some z) (\<lambda>r. returns (r, list))"
  using assms
  by (rule Contains_loop.raw_induct
        [where P = "\<lambda>h m node z. h = store list \<longrightarrow>
           Contains_call_loop list m node = seq (Some z) (\<lambda>r. returns (r, list))", rotated])
     (subst Contains_call_loop.simps, auto simp: Let_def split: if_splits option.splits)

lemma Contains_call_loop_eq:
  "Contains_call_loop list m node =
   seq (Contains_loop (store list) m node) (\<lambda>r. returns (r, list))"
proof (cases "Contains_call_loop list m node")
  case (Some y)
  then show ?thesis using Contains_call_loop_Contains_loop by metis
next
  case None
  have "Contains_loop (store list) m node = None"
  proof (rule ccontr)
    assume "Contains_loop (store list) m node \<noteq> None"
    then obtain z where "Contains_loop (store list) m node = Some z" by blast
    from Contains_loop_Contains_call_loop [OF this, of list] None show False
      by (simp add: seq_def split: sum.splits)
  qed
  with None show ?thesis by simp
qed

subsection \<open>Each query method hands back the list it was given, with its result\<close>

lemma First_call_eq: "First_call list = seq (First list) (\<lambda>r. returns (r, list))"
  by (simp add: First_call_def First_def IsEmpty_call_def IsEmpty_def read_node_def seq_assoc)

lemma Last_call_eq: "Last_call list = seq (Last list) (\<lambda>r. returns (r, list))"
  by (simp add: Last_call_def Last_def IsEmpty_call_def IsEmpty_def read_node_def seq_assoc)

lemma Get_call_eq: "Get_call list i = seq (Get list i) (\<lambda>r. returns (r, list))"
  by (simp add: Get_call_def Get_def inBounds_call_def inBounds_def read_node_def
        Get_call_loop_eq seq_assoc)

lemma Values_call_eq: "Values_call list = seq (Values list) (\<lambda>r. returns (r, list))"
  by (simp add: Values_call_def Values_def Values_call_loop_eq)

lemma IndexOf_call_eq: "IndexOf_call list v = seq (IndexOf list v) (\<lambda>r. returns (r, list))"
  by (simp add: IndexOf_call_def IndexOf_def IsEmpty_call_def IsEmpty_def IndexOf_call_loop_eq)

lemma Contains_call_eq: "Contains_call list vs = seq (Contains list vs) (\<lambda>r. returns (r, list))"
  by (simp add: Contains_call_def Contains_def Contains_call_loop_eq)

lemma ask_exec: "ask q list = exec (call_of q) list"
  by (cases q)
     (simp_all add: Size_call_def Size_def IsEmpty_call_def IsEmpty_def First_call_eq Last_call_eq
        Get_call_eq Values_call_eq IndexOf_call_eq Contains_call_eq seq_assoc split_def)

lemma ask_frame: "ask q list = returns (r, list') \<Longrightarrow> list' = list"
  by (cases q)
     (auto simp: Size_call_def IsEmpty_call_def First_call_eq Last_call_eq
        Get_call_eq Values_call_eq IndexOf_call_eq Contains_call_eq seq_eq_returns)

lemma ask_returns:
  assumes h: "holds list ps xs"
  shows "\<exists>r. ask q list = returns (r, list)"
proof (cases q)
  case AskSize
  then show ?thesis by (simp add: Size_call_def)
next
  case AskIsEmpty
  then show ?thesis by (simp add: IsEmpty_call_def)
next
  case AskFirst
  then show ?thesis using holds_First [OF h] by (simp add: First_call_eq)
next
  case AskLast
  then show ?thesis using holds_Last [OF h] by (simp add: Last_call_eq)
next
  case (AskGet i)
  then show ?thesis using holds_Get [OF h, of i] by (simp add: Get_call_eq)
next
  case AskValues
  then show ?thesis using holds_Values [OF h] by (simp add: Values_call_eq)
next
  case (AskIndexOf v)
  then show ?thesis using holds_IndexOf [OF h, of v] by (simp add: IndexOf_call_eq)
next
  case (AskContains vs)
  then show ?thesis using holds_Contains [OF h, of vs] by (simp add: Contains_call_eq)
qed


section \<open>Contains\<close>

text \<open>
  On a list that satisfies the invariant and holds the values \<open>xs\<close>, \<open>Contains\<close> returns
  true iff it has no argument, or the number of arguments, repetitions counted, is at most
  \<open>size\<close> and every argument is in \<open>xs\<close>.
\<close>

lemma Contains_characterised:
  assumes "invariant list" and "Values list = returns xs"
  shows "Contains list vs =
           returns (vs = [] \<or> (int (length vs) \<le> Size list \<and> set vs \<subseteq> set xs))"
proof -
  from assms obtain ps where h: "holds list ps xs" using invariant_Values by blast
  have "Size list = int (length xs)" using holds_length [OF h] by (simp add: Size_def)
  with holds_Contains [OF h, of vs] show ?thesis by simp
qed

text \<open>
  Claim C1. \<open>Contains(values...)\<close> is to be true iff every distinct value of the
  arguments is in the list, so that a repeated argument cannot make it fail. The code
  compares \<open>size\<close> with \<open>len(values)\<close>, which counts repetitions (see the lemma above):
  on the list that holds \<open>[1]\<close>, built by \<open>New(1)\<close>, the call \<open>Contains(1)\<close> returns true
  and the call \<open>Contains(1, 1)\<close> returns false, although \<open>1\<close> is in the list.
\<close>

theorem Contains_repeated_argument:
  "New [1] = returns list_1 \<and> Values list_1 = returns [1] \<and>
   Contains list_1 [1] = returns True \<and> Contains list_1 [1, 1] = returns False"
  by code_simp

section \<open>IndexOf\<close>

text \<open>
  Claim C8. On a list that satisfies the invariant and holds the values \<open>xs\<close>,
  \<open>IndexOf(v)\<close> returns \<open>-1\<close> with \<open>ErrEmptyList\<close> when \<open>xs\<close> is empty; when \<open>v\<close> occurs
  in \<open>xs\<close> it returns, with a nil error, the smallest position \<open>k\<close> with \<open>xs[k] = v\<close>;
  and it returns \<open>ErrElementNotFound\<close>, with the index \<open>-1\<close>, exactly when \<open>xs\<close> is not
  empty and \<open>v\<close> does not occur in it.
\<close>

theorem IndexOf_first_position:
  assumes "invariant list" and "Values list = returns xs"
  shows "(xs = [] \<longrightarrow> IndexOf list v = returns (- 1, Some ErrEmptyList)) \<and>
         (v \<in> set xs \<longrightarrow>
            (\<exists>k. IndexOf list v = returns (int k, None) \<and> k < length xs \<and> xs ! k = v \<and>
                 (\<forall>j<k. xs ! j \<noteq> v))) \<and>
         ((\<exists>i. IndexOf list v = returns (i, Some ErrElementNotFound)) \<longleftrightarrow>
            xs \<noteq> [] \<and> v \<notin> set xs) \<and>
         (\<forall>i. IndexOf list v = returns (i, Some ErrElementNotFound) \<longrightarrow> i = - 1)"
proof -
  from assms obtain ps where h: "holds list ps xs"
    using invariant_Values by blast
  note r = holds_IndexOf [OF h, of v]
  have 1: "xs = [] \<longrightarrow> IndexOf list v = returns (- 1, Some ErrEmptyList)"
    using r by simp
  have 2: "v \<in> set xs \<longrightarrow>
            (\<exists>k. IndexOf list v = returns (int k, None) \<and> k < length xs \<and> xs ! k = v \<and>
                 (\<forall>j<k. xs ! j \<noteq> v))"
  proof
    assume v: "v \<in> set xs"
    then have "xs \<noteq> []" by auto
    with r v have "IndexOf list v = returns (int (length (takeWhile (\<lambda>x. x \<noteq> v) xs)), None)"
      by simp
    with takeWhile_first [OF v] show "\<exists>k. IndexOf list v = returns (int k, None) \<and> k < length xs \<and>
       xs ! k = v \<and> (\<forall>j<k. xs ! j \<noteq> v)"
      by blast
  qed
  have 3: "(\<exists>i. IndexOf list v = returns (i, Some ErrElementNotFound)) \<longleftrightarrow>
            xs \<noteq> [] \<and> v \<notin> set xs"
    using r by (cases "xs = []"; cases "v \<in> set xs") simp_all
  have 4: "\<forall>i. IndexOf list v = returns (i, Some ErrElementNotFound) \<longrightarrow> i = - 1"
    using r by (cases "xs = []"; cases "v \<in> set xs") simp_all
  from 1 2 3 4 show ?thesis by blast
qed

theorem IndexOf_first_position_witness:
  "invariant list_123 \<and> Values list_123 = returns [1, 2, 3] \<and>
   (\<exists>k. IndexOf list_123 2 = returns (int k, None) \<and> k < 3 \<and> [1, 2, 3 :: int] ! k = 2) \<and>
   (\<exists>i. IndexOf list_123 7 = returns (i, Some ErrElementNotFound)) \<and>
   IndexOf list_empty 7 = returns (- 1, Some ErrEmptyList)"
proof -
  have i: "invariant list_123" by code_simp
  have v: "Values list_123 = returns [1, 2, 3]" by code_simp
  have e: "invariant list_empty" "Values list_empty = returns []" by code_simp+
  from IndexOf_first_position [OF i v, of 2]
  have "\<exists>k. IndexOf list_123 2 = returns (int k, None) \<and> k < 3 \<and> [1, 2, 3 :: int] ! k = 2"
    by auto
  moreover from IndexOf_first_position [OF i v, of 7]
  have "\<exists>i. IndexOf list_123 7 = returns (i, Some ErrElementNotFound)"
    by simp
  moreover from IndexOf_first_position [OF e, of 7]
  have "IndexOf list_empty 7 = returns (- 1, Some ErrEmptyList)"
    by simp
  ultimately show ?thesis using i v by simp
qed


section \<open>The structural invariant\<close>

text \<open>
  Claim C2. Every operation preserves the structural invariant: \<open>size\<close> is zero iff the
  head is none iff the tail is none, and following forward links from the head visits
  exactly \<open>size\<close> nodes, the last of them the tail, whose forward link is none (a step is
  the visit of one node, so that after \<open>size\<close> steps the pointer is none and no node is
  visited twice). Any call of any method on a list that satisfies the invariant returns,
  and the list satisfies the invariant afterwards; so does the list that \<open>New\<close> builds,
  and after any sequence of calls \<open>Size()\<close> is the number of elements of \<open>Values()\<close>.
\<close>

theorem invariant_preserved:
  "(invariant list \<longrightarrow> (\<exists>r list'. exec c list = returns (r, list') \<and> invariant list')) \<and>
   (invariant list \<longrightarrow> (\<exists>xs. Values list = returns xs \<and> Size list = int (length xs))) \<and>
   (\<exists>list' xs. seq (New vs) (\<lambda>list. run_calls list cs) = returns list' \<and> invariant list' \<and>
        Values list' = returns xs \<and> Size list' = int (length xs))"
proof (intro conjI impI)
  assume "invariant list"
  then obtain ps xs where h: "holds list ps xs" using invariant_iff by blast
  from exec_holds [OF h, of c] obtain r l' ps' xs' where
    "exec c list = returns (r, l')" "holds l' ps' xs'" by blast
  then show "\<exists>r list'. exec c list = returns (r, list') \<and> invariant list'"
    using holds_invariant by blast
  from holds_observe [OF h]
  show "\<exists>xs. Values list = returns xs \<and> Size list = int (length xs)" by blast
next
  from holds_New [of vs] obtain l0 qs where n: "New vs = returns l0" "holds l0 qs vs" by blast
  from run_calls_holds [OF n(2), of cs] obtain l' ps' xs' where
    r: "run_calls l0 cs = returns l'" "holds l' ps' xs'" by blast
  from n(1) r(1) have "seq (New vs) (\<lambda>list. run_calls list cs) = returns l'" by simp
  with holds_observe [OF r(2)]
  show "\<exists>list' xs. seq (New vs) (\<lambda>list. run_calls list cs) = returns list' \<and> invariant list' \<and>
        Values list' = returns xs \<and> Size list' = int (length xs)"
    by blast
qed

theorem invariant_preserved_witness:
  "invariant list_123 \<and>
   (\<exists>r list'. exec (CallRemove 0) list_123 = returns (r, list') \<and> invariant list') \<and>
   (\<exists>xs. Values list_123 = returns xs \<and> Size list_123 = int (length xs))"
proof -
  have i: "invariant list_123" by code_simp
  with invariant_preserved [of list_123 "CallRemove 0" "[]" "[]"] show ?thesis by blast
qed

section \<open>Error kinds\<close>

text \<open>
  Claim C3. With an index outside \<open>[0, size)\<close>, \<open>Get\<close>, \<open>Set\<close> and \<open>Swap\<close> (in either
  argument) return \<open>ErrIndexOutOfBounds\<close>, and so does \<open>Remove\<close> on a list that is not
  empty. On an empty list \<open>First\<close>, \<open>Last\<close>, \<open>IndexOf\<close> and \<open>Remove\<close> return
  \<open>ErrEmptyList\<close>, \<open>Remove\<close> for every index, since it tests emptiness before the
  bounds; \<open>Get(0)\<close> on an empty list returns the zero value with \<open>ErrIndexOutOfBounds\<close>.
  Every such call leaves the list as it was.
\<close>

theorem error_kinds:
  "(\<not> (0 \<le> i \<and> i < Size list) \<longrightarrow>
      Get list i = returns (0, Some ErrIndexOutOfBounds) \<and>
      Set list i v = returns (Some ErrIndexOutOfBounds, list) \<and>
      Swap list i j = returns (Some ErrIndexOutOfBounds, list) \<and>
      Swap list j i = returns (Some ErrIndexOutOfBounds, list) \<and>
      (\<not> IsEmpty list \<longrightarrow> Remove list i = returns (Some ErrIndexOutOfBounds, list))) \<and>
   (IsEmpty list \<longrightarrow>
      First list = returns (0, Some ErrEmptyList) \<and>
      Last list = returns (0, Some ErrEmptyList) \<and>
      IndexOf list v = returns (- 1, Some ErrEmptyList) \<and>
      Remove list i = returns (Some ErrEmptyList, list) \<and>
      Get list 0 = returns (0, Some ErrIndexOutOfBounds))"
proof (intro conjI impI)
  assume o: "\<not> (0 \<le> i \<and> i < Size list)"
  then have o': "\<not> (0 \<le> i \<and> i < sizeL list)" by (simp add: Size_def)
  show "Get list i = returns (0, Some ErrIndexOutOfBounds)"
    using o' by (rule Get_out_of_bounds)
  show "Set list i v = returns (Some ErrIndexOutOfBounds, list)"
    using o' by (rule Set_out_of_bounds)
  show "Swap list i j = returns (Some ErrIndexOutOfBounds, list)"
    using o' by (intro Swap_out_of_bounds) simp
  show "Swap list j i = returns (Some ErrIndexOutOfBounds, list)"
    using o' by (intro Swap_out_of_bounds) simp
  assume "\<not> IsEmpty list"
  then show "Remove list i = returns (Some ErrIndexOutOfBounds, list)"
    using o' by (intro Remove_out_of_bounds) (simp_all add: IsEmpty_def)
next
  assume e: "IsEmpty list"
  show "First list = returns (0, Some ErrEmptyList)" using e by (simp add: First_def)
  show "Last list = returns (0, Some ErrEmptyList)" using e by (simp add: Last_def)
  show "IndexOf list v = returns (- 1, Some ErrEmptyList)" using e by (simp add: IndexOf_def)
  show "Remove list i = returns (Some ErrEmptyList, list)" using e by (simp add: Remove_def)
  show "Get list 0 = returns (0, Some ErrIndexOutOfBounds)"
    using e by (simp add: Get_def inBounds_def IsEmpty_def)
qed

theorem error_kinds_witness:
  "\<not> (0 \<le> (3::int) \<and> 3 < Size list_123) \<and> \<not> IsEmpty list_123 \<and> IsEmpty list_empty \<and>
   Get list_123 3 = returns (0, Some ErrIndexOutOfBounds) \<and>
   Set list_123 3 7 = returns (Some ErrIndexOutOfBounds, list_123) \<and>
   Swap list_123 3 0 = returns (Some ErrIndexOutOfBounds, list_123) \<and>
   Swap list_123 0 3 = returns (Some ErrIndexOutOfBounds, list_123) \<and>
   Remove list_123 3 = returns (Some ErrIndexOutOfBounds, list_123) \<and>
   First list_empty = returns (0, Some ErrEmptyList) \<and>
   Last list_empty = returns (0, Some ErrEmptyList) \<and>
   IndexOf list_empty 7 = returns (- 1, Some ErrEmptyList) \<and>
   Remove list_empty (- 5) = returns (Some ErrEmptyList, list_empty) \<and>
   Get list_empty 0 = returns (0, Some ErrIndexOutOfBounds)"
proof -
  have a: "\<not> (0 \<le> (3::int) \<and> 3 < Size list_123)" "\<not> IsEmpty list_123" "IsEmpty list_empty"
    by code_simp+
  with error_kinds [of 3 list_123 7 0] error_kinds [of "- 5" list_empty 7 0]
  show ?thesis by simp
qed


section \<open>Prepend\<close>

text \<open>
  Claim C5. On a list that satisfies the invariant and holds the values \<open>xs\<close>,
  \<open>Prepend(values...)\<close> returns, and the list then holds the argument values in the order
  they were passed, followed by \<open>xs\<close>. The tail reference is taken care of: the invariant
  holds afterwards, so the tail reference is the last node of the chain; when the list
  was empty it is set to the node that carries the last argument (with no argument there
  is no node, and the list is left as it was), and when the list was not empty it stays
  what it was.
\<close>

theorem Prepend_keeps_order:
  assumes "invariant list" and "Values list = returns xs"
  shows "\<exists>list'. Prepend list vs = returns list' \<and> invariant list' \<and>
           Values list' = returns (vs @ xs) \<and>
           Size list' = Size list + int (length vs) \<and>
           (xs = [] \<and> vs \<noteq> [] \<longrightarrow>
              (\<exists>t. lastL list' = Some t \<and> t < length (store list') \<and>
                   valueN (store list' ! t) = last vs \<and> nextN (store list' ! t) = None)) \<and>
           (xs \<noteq> [] \<longrightarrow> lastL list' = lastL list) \<and>
           (vs = [] \<longrightarrow> list' = list)"
proof -
  from assms obtain ps where h: "holds list ps xs" using invariant_Values by blast
  from holds_Prepend [OF h, of vs] obtain l' qs where
    r: "Prepend list vs = returns l'" and h': "holds l' (qs @ ps) (vs @ xs)" by blast
  note o = holds_observe [OF h'] holds_observe [OF h]
  have 1: "Size l' = Size list + int (length vs)" using o by simp
  have 2: "xs = [] \<and> vs \<noteq> [] \<longrightarrow>
              (\<exists>t. lastL l' = Some t \<and> t < length (store l') \<and>
                   valueN (store l' ! t) = last vs \<and> nextN (store l' ! t) = None)"
    using holds_tail [OF h'] by auto
  have 3: "xs \<noteq> [] \<longrightarrow> lastL l' = lastL list"
  proof
    assume "xs \<noteq> []"
    then have "ps \<noteq> []" using holds_length [OF h] by auto
    then show "lastL l' = lastL list" using holds_last [OF h] holds_last [OF h'] by simp
  qed
  have 4: "vs = [] \<longrightarrow> l' = list" using r Prepend_nothing [of list] by auto
  from r o(1) 1 2 3 4 show ?thesis by blast
qed

theorem Prepend_keeps_order_witness:
  "invariant list_123 \<and> Values list_123 = returns [1, 2, 3] \<and>
   (\<exists>list'. Prepend list_123 [7, 8] = returns list' \<and> invariant list' \<and>
       Values list' = returns [7, 8, 1, 2, 3] \<and> Size list' = 5 \<and> lastL list' = lastL list_123) \<and>
   (\<exists>list' t. Prepend list_empty [7, 8] = returns list' \<and> Values list' = returns [7, 8] \<and>
       lastL list' = Some t \<and> valueN (store list' ! t) = 8)"
proof -
  have i: "invariant list_123" "Values list_123 = returns [1, 2, 3]" by code_simp+
  have e: "invariant list_empty" "Values list_empty = returns []" by code_simp+
  have s: "Size list_123 = 3" by code_simp
  from Prepend_keeps_order [OF i, of "[7, 8]"] s
  have "\<exists>list'. Prepend list_123 [7, 8] = returns list' \<and> invariant list' \<and>
       Values list' = returns [7, 8, 1, 2, 3] \<and> Size list' = 5 \<and> lastL list' = lastL list_123"
    by auto
  moreover from Prepend_keeps_order [OF e, of "[7, 8]"]
  have "\<exists>list' t. Prepend list_empty [7, 8] = returns list' \<and> Values list' = returns [7, 8] \<and>
       lastL list' = Some t \<and> valueN (store list' ! t) = 8"
    by auto
  ultimately show ?thesis using i by blast
qed

section \<open>Remove\<close>

text \<open>
  Claim C6. On a list that satisfies the invariant and holds the values \<open>xs\<close>, with
  \<open>0 \<le> i < size\<close>, \<open>Remove(i)\<close> returns a nil error; the list then holds \<open>xs\<close> without the
  element at position \<open>i\<close>, the others in their order; \<open>size\<close> is one less; the invariant
  holds, so head and tail are right, and \<open>First\<close> and \<open>Last\<close> return the first and the
  last of the remaining values. On the list \<open>[1, 2, 3]\<close>, \<open>Remove(0)\<close> leaves \<open>[2, 3]\<close> with
  size 2, and \<open>IndexOf(2)\<close> then returns 0 and nil.
\<close>

theorem Remove_deletes_position:
  "(invariant list \<and> Values list = returns xs \<and> 0 \<le> i \<and> i < Size list \<longrightarrow>
      (\<exists>list'. Remove list i = returns (None, list') \<and> invariant list' \<and>
         Values list' = returns (take (nat i) xs @ drop (Suc (nat i)) xs) \<and>
         Size list' = Size list - 1 \<and>
         First list' = returns (if take (nat i) xs @ drop (Suc (nat i)) xs = []
                                then (0, Some ErrEmptyList)
                                else (hd (take (nat i) xs @ drop (Suc (nat i)) xs), None)) \<and>
         Last list' = returns (if take (nat i) xs @ drop (Suc (nat i)) xs = []
                               then (0, Some ErrEmptyList)
                               else (last (take (nat i) xs @ drop (Suc (nat i)) xs), None)))) \<and>
   (New [1, 2, 3] = returns list_123 \<and> Remove list_123 0 = returns (None, list_23) \<and>
    Values list_23 = returns [2, 3] \<and> Size list_23 = 2 \<and> IndexOf list_23 2 = returns (0, None))"
proof (intro conjI impI)
  assume a: "invariant list \<and> Values list = returns xs \<and> 0 \<le> i \<and> i < Size list"
  then obtain ps where h: "holds list ps xs" using invariant_Values by blast
  note o = holds_observe [OF h]
  have i: "0 \<le> i" "i < int (length xs)" using a o by simp_all
  from holds_Remove [OF h i] obtain l' where
    r: "Remove list i = returns (None, l')"
    and h': "holds l' (take (nat i) ps @ drop (Suc (nat i)) ps)
                      (take (nat i) xs @ drop (Suc (nat i)) xs)"
    by blast
  note o' = holds_observe [OF h']
  have "Size l' = Size list - 1" using o o' i by simp
  with r o' holds_First [OF h'] holds_Last [OF h']
  show "\<exists>list'. Remove list i = returns (None, list') \<and> invariant list' \<and>
         Values list' = returns (take (nat i) xs @ drop (Suc (nat i)) xs) \<and>
         Size list' = Size list - 1 \<and>
         First list' = returns (if take (nat i) xs @ drop (Suc (nat i)) xs = []
                                then (0, Some ErrEmptyList)
                                else (hd (take (nat i) xs @ drop (Suc (nat i)) xs), None)) \<and>
         Last list' = returns (if take (nat i) xs @ drop (Suc (nat i)) xs = []
                               then (0, Some ErrEmptyList)
                               else (last (take (nat i) xs @ drop (Suc (nat i)) xs), None))"
    by blast
next
  show "New [1, 2, 3] = returns list_123" by code_simp
  show "Remove list_123 0 = returns (None, list_23)" by code_simp
  show "Values list_23 = returns [2, 3]" by code_simp
  show "Size list_23 = 2" by code_simp
  show "IndexOf list_23 2 = returns (0, None)" by code_simp
qed

theorem Remove_deletes_position_witness:
  "invariant list_123 \<and> Values list_123 = returns [1, 2, 3] \<and> (0::int) \<le> 1 \<and> 1 < Size list_123 \<and>
   (\<exists>list'. Remove list_123 1 = returns (None, list') \<and> invariant list' \<and>
       Values list' = returns [1, 3] \<and> Size list' = 2 \<and>
       First list' = returns (1, None) \<and> Last list' = returns (3, None))"
proof -
  have a: "invariant list_123 \<and> Values list_123 = returns [1, 2, 3] \<and> (0::int) \<le> 1 \<and> 1 < Size list_123"
    by code_simp
  have s: "Size list_123 = 3" by code_simp
  from Remove_deletes_position [of list_123 "[1, 2, 3]" 1] a s
  have "\<exists>list'. Remove list_123 1 = returns (None, list') \<and> invariant list' \<and>
       Values list' = returns [1, 3] \<and> Size list' = 2 \<and>
       First list' = returns (1, None) \<and> Last list' = returns (3, None)"
    by auto
  with a show ?thesis by blast
qed


section \<open>Swap\<close>

text \<open>
  Claim C7. On a list that satisfies the invariant and holds the values \<open>xs\<close>: with \<open>i\<close>
  and \<open>j\<close> both in \<open>[0, size)\<close>, \<open>Swap(i, j)\<close> returns nil and the list then holds \<open>xs\<close>
  with the values at the positions \<open>i\<close> and \<open>j\<close> exchanged and every other position as it
  was; with \<open>i = j\<close> the list is left as it was. With \<open>i\<close> or \<open>j\<close> outside \<open>[0, size)\<close>,
  also when \<open>i = j\<close>, it returns \<open>ErrIndexOutOfBounds\<close> and leaves the list as it was.
\<close>

theorem Swap_exchanges_values:
  assumes "invariant list" and "Values list = returns xs"
  shows "(0 \<le> i \<and> i < Size list \<and> 0 \<le> j \<and> j < Size list \<longrightarrow>
            (\<exists>list' ys. Swap list i j = returns (None, list') \<and> invariant list' \<and>
               Values list' = returns ys \<and> length ys = length xs \<and>
               ys ! nat i = xs ! nat j \<and> ys ! nat j = xs ! nat i \<and>
               (\<forall>k < length xs. k \<noteq> nat i \<and> k \<noteq> nat j \<longrightarrow> ys ! k = xs ! k) \<and>
               (i = j \<longrightarrow> list' = list))) \<and>
         (\<not> (0 \<le> i \<and> i < Size list) \<or> \<not> (0 \<le> j \<and> j < Size list) \<longrightarrow>
            Swap list i j = returns (Some ErrIndexOutOfBounds, list))"
proof (intro conjI impI)
  from assms obtain ps where h: "holds list ps xs" using invariant_Values by blast
  note o = holds_observe [OF h]
  assume a: "0 \<le> i \<and> i < Size list \<and> 0 \<le> j \<and> j < Size list"
  then have i: "0 \<le> i" "i < int (length xs)" and j: "0 \<le> j" "j < int (length xs)"
    using o by simp_all
  let ?ys = "xs[nat i := xs ! nat j, nat j := xs ! nat i]"
  from holds_Swap [OF h i j] obtain l' where
    r: "Swap list i j = returns (None, l')" and h': "holds l' ps ?ys" by blast
  note o' = holds_observe [OF h']
  have ni: "nat i < length xs" and nj: "nat j < length xs" using i j by simp_all
  have 1: "?ys ! nat i = xs ! nat j" using ni nj by (simp add: nth_list_update)
  have 2: "?ys ! nat j = xs ! nat i" using ni nj by (simp add: nth_list_update)
  have 3: "\<forall>k < length xs. k \<noteq> nat i \<and> k \<noteq> nat j \<longrightarrow> ?ys ! k = xs ! k" by simp
  have 4: "i = j \<longrightarrow> l' = list"
  proof
    assume "i = j"
    moreover have "inBounds list i" using a by (simp add: inBounds_def Size_def)
    ultimately have "Swap list i j = returns (None, list)" by (simp add: Swap_def)
    with r show "l' = list" by simp
  qed
  have 5: "length ?ys = length xs" by simp
  from r o'(1) 1 2 3 4 5
  show "\<exists>list' ys. Swap list i j = returns (None, list') \<and> invariant list' \<and>
               Values list' = returns ys \<and> length ys = length xs \<and>
               ys ! nat i = xs ! nat j \<and> ys ! nat j = xs ! nat i \<and>
               (\<forall>k < length xs. k \<noteq> nat i \<and> k \<noteq> nat j \<longrightarrow> ys ! k = xs ! k) \<and>
               (i = j \<longrightarrow> list' = list)"
    by blast
next
  assume "\<not> (0 \<le> i \<and> i < Size list) \<or> \<not> (0 \<le> j \<and> j < Size list)"
  then show "Swap list i j = returns (Some ErrIndexOutOfBounds, list)"
    by (intro Swap_out_of_bounds) (simp add: Size_def)
qed

theorem Swap_exchanges_values_witness:
  "invariant list_123 \<and> Values list_123 = returns [1, 2, 3] \<and>
   (0::int) \<le> 0 \<and> 0 < Size list_123 \<and> (0::int) \<le> 2 \<and> 2 < Size list_123 \<and>
   (\<exists>list' ys. Swap list_123 0 2 = returns (None, list') \<and> invariant list' \<and>
       Values list' = returns ys \<and> ys ! 0 = 3 \<and> ys ! 2 = 1 \<and> ys ! 1 = 2) \<and>
   \<not> (0 \<le> (3::int) \<and> 3 < Size list_123) \<and>
   Swap list_123 3 3 = returns (Some ErrIndexOutOfBounds, list_123)"
proof -
  have i: "invariant list_123" "Values list_123 = returns [1, 2, 3]" by code_simp+
  have s: "Size list_123 = 3" by code_simp
  from Swap_exchanges_values [OF i, of 0 2] s
  have "\<exists>list' ys. Swap list_123 0 2 = returns (None, list') \<and> invariant list' \<and>
       Values list' = returns ys \<and> ys ! 0 = 3 \<and> ys ! 2 = 1 \<and> ys ! 1 = 2"
    by (auto simp: eval_nat_numeral)
  moreover from Swap_exchanges_values [OF i, of 3 3] s
  have "Swap list_123 3 3 = returns (Some ErrIndexOutOfBounds, list_123)" by simp
  ultimately show ?thesis using i s by simp
qed


section \<open>Insert\<close>

text \<open>
  Claim C4. On a list that satisfies the invariant and holds the values \<open>xs\<close>:
  \<open>Insert(0, values...)\<close> and \<open>Prepend(values...)\<close> both return and leave lists with the same
  contents, \<open>values\<close> followed by \<open>xs\<close>, and the same size (the very same list when the list
  was not empty); \<open>Insert(size, values...)\<close> returns the list that \<open>Append(values...)\<close>
  returns, holding \<open>xs\<close> followed by \<open>values\<close>; with an index below \<open>0\<close> or above \<open>size\<close> it
  returns \<open>ErrIndexOutOfBounds\<close> and leaves the list as it was; with \<open>0 \<le> index \<le> size\<close> it
  returns nil, and the list holds the first \<open>index\<close> values of \<open>xs\<close>, then \<open>values\<close> in the
  order passed, then the rest of \<open>xs\<close>, with \<open>size\<close> grown by the number of values
  exactly, also for \<open>index = 0\<close> on an empty list.
\<close>

theorem Insert_splices:
  assumes "invariant list" and "Values list = returns xs"
  shows "(\<exists>list1 list2. Insert list 0 vs = returns (None, list1) \<and> Prepend list vs = returns list2 \<and>
            invariant list1 \<and> invariant list2 \<and>
            Values list1 = returns (vs @ xs) \<and> Values list2 = returns (vs @ xs) \<and>
            Size list1 = Size list2 \<and> (xs \<noteq> [] \<longrightarrow> list1 = list2)) \<and>
         (\<exists>list1. Insert list (Size list) vs = returns (None, list1) \<and>
            Append list vs = returns list1 \<and> invariant list1 \<and>
            Values list1 = returns (xs @ vs)) \<and>
         (i < 0 \<or> Size list < i \<longrightarrow> Insert list i vs = returns (Some ErrIndexOutOfBounds, list)) \<and>
         (0 \<le> i \<and> i \<le> Size list \<longrightarrow>
            (\<exists>list1. Insert list i vs = returns (None, list1) \<and> invariant list1 \<and>
               Values list1 = returns (take (nat i) xs @ vs @ drop (nat i) xs) \<and>
               Size list1 = Size list + int (length vs)))"
proof -
  from assms obtain ps where h: "holds list ps xs" using invariant_Values by blast
  note o = holds_observe [OF h]
  have sz: "sizeL list = int (length xs)" using o by (simp add: Size_def)
  have 1: "\<exists>list1 list2. Insert list 0 vs = returns (None, list1) \<and> Prepend list vs = returns list2 \<and>
            invariant list1 \<and> invariant list2 \<and>
            Values list1 = returns (vs @ xs) \<and> Values list2 = returns (vs @ xs) \<and>
            Size list1 = Size list2 \<and> (xs \<noteq> [] \<longrightarrow> list1 = list2)"
  proof -
    from holds_Insert [OF h, of 0 vs] obtain l1 ps1 where
      a: "Insert list 0 vs = returns (None, l1)" "holds l1 ps1 (vs @ xs)" by auto
    from holds_Prepend [OF h, of vs] obtain l2 qs where
      b: "Prepend list vs = returns l2" "holds l2 (qs @ ps) (vs @ xs)" by blast
    note o1 = holds_observe [OF a(2)] and o2 = holds_observe [OF b(2)]
    have "xs \<noteq> [] \<longrightarrow> l1 = l2"
    proof
      assume "xs \<noteq> []"
      then have "inBounds list 0" using sz by (simp add: inBounds_def)
      then have "Insert list 0 vs = returns (None, l2)" using b(1) by (simp add: Insert_def)
      with a(1) show "l1 = l2" by simp
    qed
    with a(1) b(1) o1 o2 show ?thesis by auto
  qed
  have 2: "\<exists>list1. Insert list (Size list) vs = returns (None, list1) \<and>
            Append list vs = returns list1 \<and> invariant list1 \<and>
            Values list1 = returns (xs @ vs)"
  proof -
    from holds_Add [OF h, of vs] obtain l1 qs where
      a: "Add list vs = returns l1" "holds l1 (ps @ qs) (xs @ vs)" by blast
    then have "Insert list (Size list) vs = returns (None, l1)"
      by (simp add: Insert_def inBounds_def Size_def Append_def)
    with a holds_observe [OF a(2)] show ?thesis by (auto simp: Append_def)
  qed
  have 3: "i < 0 \<or> Size list < i \<longrightarrow> Insert list i vs = returns (Some ErrIndexOutOfBounds, list)"
  proof
    assume "i < 0 \<or> Size list < i"
    then show "Insert list i vs = returns (Some ErrIndexOutOfBounds, list)"
      using sz by (intro Insert_out_of_bounds) (auto simp: Size_def)
  qed
  have 4: "0 \<le> i \<and> i \<le> Size list \<longrightarrow>
            (\<exists>list1. Insert list i vs = returns (None, list1) \<and> invariant list1 \<and>
               Values list1 = returns (take (nat i) xs @ vs @ drop (nat i) xs) \<and>
               Size list1 = Size list + int (length vs))"
  proof
    assume "0 \<le> i \<and> i \<le> Size list"
    then have i: "0 \<le> i" "i \<le> int (length xs)" using o by simp_all
    from holds_Insert [OF h i, of vs] obtain l1 ps1 where
      a: "Insert list i vs = returns (None, l1)"
         "holds l1 ps1 (take (nat i) xs @ vs @ drop (nat i) xs)" by blast
    note o1 = holds_observe [OF a(2)]
    have "Size l1 = Size list + int (length vs)" using o o1 i by simp
    with a(1) o1 show "\<exists>list1. Insert list i vs = returns (None, list1) \<and> invariant list1 \<and>
               Values list1 = returns (take (nat i) xs @ vs @ drop (nat i) xs) \<and>
               Size list1 = Size list + int (length vs)"
      by blast
  qed
  from 1 2 3 4 show ?thesis by blast
qed

theorem Insert_splices_witness:
  "invariant list_123 \<and> Values list_123 = returns [1, 2, 3] \<and>
   (0::int) \<le> 1 \<and> 1 \<le> Size list_123 \<and>
   (\<exists>list1. Insert list_123 1 [7, 8] = returns (None, list1) \<and> invariant list1 \<and>
       Values list1 = returns [1, 7, 8, 2, 3] \<and> Size list1 = 5) \<and>
   ((- 1 :: int) < 0 \<or> Size list_123 < - 1) \<and>
   Insert list_123 (- 1) [7, 8] = returns (Some ErrIndexOutOfBounds, list_123) \<and>
   invariant list_empty \<and> Values list_empty = returns [] \<and>
   (\<exists>list1. Insert list_empty 0 [7, 8] = returns (None, list1) \<and>
       Values list1 = returns [7, 8] \<and> Size list1 = 2)"
proof -
  have i: "invariant list_123" "Values list_123 = returns [1, 2, 3]" by code_simp+
  have e: "invariant list_empty" "Values list_empty = returns []" by code_simp+
  have s: "Size list_123 = 3" "Size list_empty = 0" by code_simp+
  from Insert_splices [OF i, of "[7, 8]" 1] s
  have "\<exists>list1. Insert list_123 1 [7, 8] = returns (None, list1) \<and> invariant list1 \<and>
       Values list1 = returns [1, 7, 8, 2, 3] \<and> Size list1 = 5"
    by auto
  moreover from Insert_splices [OF i, of "[7, 8]" "- 1"]
  have "Insert list_123 (- 1) [7, 8] = returns (Some ErrIndexOutOfBounds, list_123)" by simp
  moreover from Insert_splices [OF e, of "[7, 8]" 0] s
  have "\<exists>list1. Insert list_empty 0 [7, 8] = returns (None, list1) \<and>
       Values list1 = returns [7, 8] \<and> Size list1 = 2"
    by auto
  ultimately show ?thesis using i e s by simp
qed

section \<open>Failure leaves the list as it was\<close>

text \<open>
  Claim C9. Whenever a call of a method returns an error that is not nil (that can be
  \<open>First\<close>, \<open>Last\<close>, \<open>Get\<close>, \<open>IndexOf\<close>, \<open>Remove\<close>, \<open>Swap\<close>, \<open>Insert\<close> or \<open>Set\<close>), the list
  after the call is the list before it, whatever the list and the arguments were, and so
  \<open>Size()\<close> and \<open>Values()\<close> give what they gave before: each method validates its
  arguments before it writes.
\<close>

theorem failure_leaves_list_unchanged:
  assumes "exec c list = returns (r, list')" and "reply_error r \<noteq> None"
  shows "list' = list \<and> Size list' = Size list \<and> Values list' = Values list"
proof -
  have "list' = list"
  proof (cases "is_query c")
    case True
    then show ?thesis using assms(1) by (rule exec_query_same)
  next
    case False
    then show ?thesis
    proof (cases c)
      case (CallAdd vs)
      with assms show ?thesis by (auto simp: seq_eq_returns)
    next
      case (CallAppend vs)
      with assms show ?thesis by (auto simp: seq_eq_returns)
    next
      case (CallPrepend vs)
      with assms show ?thesis by (auto simp: seq_eq_returns)
    next
      case CallClear
      with assms show ?thesis by auto
    next
      case (CallRemove i)
      with assms show ?thesis by (auto simp: seq_eq_returns dest: Remove_error_unchanged)
    next
      case (CallSwap i j)
      with assms show ?thesis by (auto simp: seq_eq_returns dest: Swap_error_unchanged)
    next
      case (CallInsert i vs)
      with assms show ?thesis by (auto simp: seq_eq_returns dest: Insert_error_unchanged)
    next
      case (CallSet i v)
      with assms show ?thesis by (auto simp: seq_eq_returns dest: Set_error_unchanged)
    qed simp_all
  qed
  then show ?thesis by simp
qed

theorem failure_leaves_list_unchanged_witness:
  "(exec (CallRemove 5) list_123 = returns (Err (Some ErrIndexOutOfBounds), list_123) \<and>
    reply_error (Err (Some ErrIndexOutOfBounds) :: int reply) \<noteq> None) \<and>
   (list_123 = list_123 \<and> Size list_123 = Size list_123 \<and> Values list_123 = Values list_123)"
proof -
  have a: "exec (CallRemove 5) list_123 = returns (Err (Some ErrIndexOutOfBounds), list_123)"
    by code_simp
  have b: "reply_error (Err (Some ErrIndexOutOfBounds) :: int reply) \<noteq> None" by simp
  show ?thesis
    by (rule conjI, rule conjI, rule a, rule b, rule failure_leaves_list_unchanged [OF a b])
qed

section \<open>Queries\<close>

text \<open>
  Claim C10. Every query method (\<open>Size\<close>, \<open>IsEmpty\<close>, \<open>First\<close>, \<open>Last\<close>, \<open>Get\<close>,
  \<open>Values\<close>, \<open>IndexOf\<close>, \<open>Contains\<close>) leaves the list as it was: whatever the list and
  the arguments, when the call returns, the list its body hands back is the list it was
  given, so that \<open>Size()\<close> and \<open>Values()\<close> give afterwards what they gave before
  (\<open>Contains\<close> deletes from its own working map only, \<open>Values\<close> writes the slice it made
  only). On a list that satisfies the invariant every such call does return.
\<close>

theorem queries_leave_list_unchanged:
  "(ask q list = returns (r, list') \<longrightarrow>
      list' = list \<and> Size list' = Size list \<and> Values list' = Values list) \<and>
   (invariant list \<longrightarrow> (\<exists>r. ask q list = returns (r, list)))"
proof (intro conjI impI)
  assume "ask q list = returns (r, list')"
  then have "list' = list" by (rule ask_frame)
  then show "list' = list" "Size list' = Size list" "Values list' = Values list" by simp_all
next
  assume "invariant list"
  then obtain ps xs where "holds list ps xs" using invariant_iff by blast
  then show "\<exists>r. ask q list = returns (r, list)" by (rule ask_returns)
qed

theorem queries_leave_list_unchanged_witness:
  "(ask (AskGet 1) list_123 = returns (Val 2 None, list_123) \<and> invariant list_123) \<and>
   ((list_123 = list_123 \<and> Size list_123 = Size list_123 \<and> Values list_123 = Values list_123) \<and>
    (\<exists>r. ask (AskContains [3, 9]) list_123 = returns (r, list_123)))"
proof -
  have a: "ask (AskGet 1) list_123 = returns (Val 2 None, list_123)" by code_simp
  have i: "invariant list_123" by code_simp
  have f: "list_123 = list_123 \<and> Size list_123 = Size list_123 \<and> Values list_123 = Values list_123"
    by (rule mp [OF conjunct1 [OF queries_leave_list_unchanged] a])
  have t: "\<exists>r. ask (AskContains [3, 9]) list_123 = returns (r, list_123)"
    by (rule mp [OF conjunct2 [OF queries_leave_list_unchanged] i])
  show ?thesis
    by (rule conjI, rule conjI, rule a, rule i, rule conjI, rule f, rule t)
qed

end
